theory Spec2Isabelle
  imports Complex_Main "HOL-Library.AList" "HOL-Library.Sublist"
begin

section \<open>Values of the trace analyser\<close>

text \<open>
  The program is a JavaScript tool (\<^verbatim>\<open>analyze-trace.js\<close>). A JavaScript Number is
  modelled by a rational: the comparisons, the division by 1000 and the subtraction of
  50 are the exact ones, IEEE rounding is left out. A string is a list of characters;
  case conversion and white space are those of ASCII.
\<close>

type_synonym number = rat

subsection \<open>The string methods the program calls\<close>

text \<open>\<^verbatim>\<open>String.prototype.toLowerCase\<close>, on the letters A to Z.\<close>

definition lower_char :: "char \<Rightarrow> char" where
  "lower_char c =
     (case map_of (zip ''ABCDEFGHIJKLMNOPQRSTUVWXYZ'' ''abcdefghijklmnopqrstuvwxyz'') c of
        None \<Rightarrow> c
      | Some l \<Rightarrow> l)"

definition toLowerCase :: "string \<Rightarrow> string" where
  "toLowerCase s = map lower_char s"

text \<open>\<^verbatim>\<open>str.includes(p)\<close>: \<open>p\<close> occurs in \<open>str\<close> as a contiguous run.\<close>

fun js_includes :: "string \<Rightarrow> string \<Rightarrow> bool" where
  "js_includes [] p = (p = [])"
| "js_includes (c # cs) p = (prefix p (c # cs) \<or> js_includes cs p)"

text \<open>\<^verbatim>\<open>String.prototype.trim\<close>: tab, line feed, vertical tab, form feed, carriage
  return and space are removed at both ends.\<close>

definition is_space :: "char \<Rightarrow> bool" where
  "is_space c = (c \<in> set [CHR 0x09, CHR 0x0A, CHR 0x0B, CHR 0x0C, CHR 0x0D, CHR '' ''])"

definition trim :: "string \<Rightarrow> string" where
  "trim s = rev (dropWhile is_space (rev (dropWhile is_space s)))"

text \<open>\<^verbatim>\<open>str.split(d)\<close> for a one-character separator: the empty string gives one
  empty piece, and a separator at the end gives a last empty piece.\<close>

fun split :: "char \<Rightarrow> string \<Rightarrow> string list" where
  "split d [] = [[]]"
| "split d (c # cs) =
     (if c = d then [] # split d cs
      else (case split d cs of [] \<Rightarrow> [[c]] | w # ws \<Rightarrow> (c # w) # ws))"

text \<open>Truthiness of an optional string or number: \<^verbatim>\<open>undefined\<close>, the empty string and
  zero are falsy.\<close>

fun truthy_str :: "string option \<Rightarrow> bool" where
  "truthy_str None = False"
| "truthy_str (Some s) = (s \<noteq> [])"

fun truthy_num :: "number option \<Rightarrow> bool" where
  "truthy_num None = False"
| "truthy_num (Some d) = (d \<noteq> 0)"

subsection \<open>Trace events\<close>

text \<open>
  The fields of a trace event that the program reads: \<^verbatim>\<open>ph\<close>, \<^verbatim>\<open>dur\<close> (microseconds),
  \<^verbatim>\<open>name\<close>, \<^verbatim>\<open>cat\<close> (comma-separated), \<^verbatim>\<open>tid\<close> and \<^verbatim>\<open>args.data.url\<close>. \<open>None\<close> is
  an absent field.
\<close>

record event =
  ev_ph :: "string option"
  ev_dur :: "number option"
  ev_name :: "string option"
  ev_cat :: "string option"
  ev_tid :: "number option"
  ev_url :: "string option"

section \<open>Event classifier\<close>

definition tbtCategories :: "string list" where
  "tbtCategories =
     [''devtools.timeline'', ''loading'', ''scripting'', ''rendering'', ''painting'',
      ''v8'', ''v8.execute'', ''blink'', ''benchmark'',
      ''disabled-by-default-devtools.timeline'']"

definition tbtTaskTypes :: "string list" where
  "tbtTaskTypes =
     [''Script'', ''EvaluateScript'', ''V8.CompileScript'', ''V8.CompileCode'',
      ''V8.CompileIgnition'', ''V8.CompileEval'', ''FunctionCall'', ''v8.callFunction'',
      ''TimerFire'', ''EventDispatch'', ''RunTask'',
      ''Layout'', ''UpdateLayoutTree'', ''RecalculateStyles'', ''ParseHTML'',
      ''ParseAuthorStyleSheet'', ''StyleRecalculation'', ''UpdateLayer'', ''Layerize'',
      ''Paint'', ''CompositeLayers'', ''UpdateLayerTree'', ''PrePaint'',
      ''XHRReadyStateChange'', ''ResourceSendRequest'', ''ResourceReceiveResponse'',
      ''ResourceFinish'']"

definition containsAny :: "string \<Rightarrow> string list \<Rightarrow> bool" where
  "containsAny str patterns =
     (if str = [] then False
      else list_ex (\<lambda>pattern. js_includes (toLowerCase str) (toLowerCase pattern)) patterns)"

text \<open>The main-thread test: \<^verbatim>\<open>event.tid === 1 || event.name?.includes('MainThread') ||
  event.cat?.includes('devtools.timeline')\<close>.\<close>

definition isMainThread :: "event \<Rightarrow> bool" where
  "isMainThread e =
     (ev_tid e = Some 1
      \<or> (case ev_name e of None \<Rightarrow> False | Some n \<Rightarrow> js_includes n ''MainThread'')
      \<or> (case ev_cat e of None \<Rightarrow> False | Some c \<Rightarrow> js_includes c ''devtools.timeline''))"

definition categoryMatches :: "event \<Rightarrow> bool" where
  "categoryMatches e =
     (case ev_cat e of
        None \<Rightarrow> False
      | Some c \<Rightarrow>
          c \<noteq> [] \<and>
          list_ex (\<lambda>pat.
              list_ex (\<lambda>piece. js_includes (toLowerCase (trim piece)) (toLowerCase pat))
                (split CHR '','' c))
            tbtCategories)"

definition taskTypeMatches :: "event \<Rightarrow> bool" where
  "taskTypeMatches e =
     (case ev_name e of
        None \<Rightarrow> False
      | Some n \<Rightarrow> n \<noteq> [] \<and> containsAny n tbtTaskTypes)"

text \<open>
  \<^verbatim>\<open>isPotentialTBTTask\<close>. The JavaScript expression is a chain of \<^verbatim>\<open>&&\<close>, whose value
  the caller only tests in an \<^verbatim>\<open>if\<close>; the model is the truthiness of that value.
\<close>

definition isPotentialTBTTask :: "event \<Rightarrow> bool" where
  "isPotentialTBTTask e =
     (ev_ph e = Some ''X'' \<and> truthy_num (ev_dur e) \<and>
      (isMainThread e \<and> (categoryMatches e \<or> taskTypeMatches e)))"

section \<open>Blocking time calculator\<close>

text \<open>An absent \<^verbatim>\<open>dur\<close> makes \<^verbatim>\<open>durationMs\<close> NaN, the comparison false and the
  result 0.\<close>

definition calculateBlockingTime :: "event \<Rightarrow> number" where
  "calculateBlockingTime e =
     (case ev_dur e of
        None \<Rightarrow> 0
      | Some d \<Rightarrow> (let durationMs = d / 1000 in
                    if durationMs > 50 then durationMs - 50 else 0))"

definition getEventKey :: "event \<Rightarrow> string" where
  "getEventKey e =
     (case ev_name e of
        None \<Rightarrow> ''Unknown Task''
      | Some n \<Rightarrow> if n \<noteq> [] then n else ''Unknown Task'')"

definition getEventUrl :: "event \<Rightarrow> string" where
  "getEventUrl e =
     (case ev_url e of
        None \<Rightarrow> []
      | Some u \<Rightarrow> u)"

section \<open>Task aggregator\<close>

record task =
  name :: string
  url :: string
  blockingTime :: number
  totalDuration :: number
  occurrences :: nat
  category :: string

text \<open>
  The elements of the event array as they come out of the JSON text. An element is
  \<^verbatim>\<open>null\<close> or has fields; an element that is a number, a string, a boolean or an array
  has none of the fields and reads as an object without them. The name, the category
  list and the URL (\<^verbatim>\<open>args.data.url\<close>) may be absent (\<^verbatim>\<open>undefined\<close> or \<^verbatim>\<open>null\<close>),
  hold a string, or hold a value that is not a string: a number, a boolean or an object
  that is not an array. Of such a value the model keeps whether it is truthy and the
  text that a template literal or a \<^verbatim>\<open>join\<close> makes of it, which is not empty for a
  truthy one. For the phase \<open>None\<close> is an absent field or a value that is not a string,
  for the thread id an absent field or a value that is not a number; both only take
  part in a \<^verbatim>\<open>===\<close>. A duration that is not a number and an array as the value of a
  field are left out.
\<close>

datatype jsfield = Missing | NotString bool string | IsString string

record rawEvent =
  raw_ph :: "string option"
  raw_dur :: "number option"
  raw_name :: jsfield
  raw_cat :: jsfield
  raw_tid :: "number option"
  raw_url :: jsfield

datatype element = NullElement | ObjectElement rawEvent

text \<open>
  The parsed trace, by the shapes the program tells apart: an array of events; any other
  truthy value, whose \<^verbatim>\<open>traceEvents\<close> property is an array of events or is not; a
  falsy value (\<^verbatim>\<open>null\<close>, \<^verbatim>\<open>false\<close>, \<^verbatim>\<open>0\<close>, the empty string).
\<close>

datatype traceData =
    TraceArray "element list"
  | TraceObject "element list option"
  | TraceFalsy

datatype error =
    InputFileNotFound string
  | JsonParseFailed string
  | InvalidTraceFormat
  | TypeError

text \<open>
  The JavaScript \<^verbatim>\<open>Map\<close> of tasks keeps its keys in insertion order, and \<^verbatim>\<open>set\<close> on a
  key that is present replaces the value in place: an association list under
  \<^const>\<open>AList.update\<close>. The body of the \<^verbatim>\<open>forEach\<close> over the events follows; the
  duration is read only from an event that the classifier has accepted, which has one.
\<close>

definition processEvent :: "event \<Rightarrow> (string \<times> task) list \<Rightarrow> (string \<times> task) list" where
  "processEvent e tasks =
     (if isPotentialTBTTask e then
        (let duration = (case ev_dur e of None \<Rightarrow> 0 | Some d \<Rightarrow> d / 1000);
             bt = calculateBlockingTime e;
             key = getEventKey e;
             u = getEventUrl e;
             uniqueKey = key @ ''|'' @ u;
             t = (case map_of tasks uniqueKey of
                    Some t0 \<Rightarrow> t0
                  | None \<Rightarrow> \<lparr>name = key, url = u, blockingTime = 0, totalDuration = 0,
                             occurrences = 0,
                             category = (case ev_cat e of
                                           None \<Rightarrow> ''unknown''
                                         | Some c \<Rightarrow> if c \<noteq> [] then c else ''unknown'')\<rparr>)
         in AList.update uniqueKey
              (t\<lparr>blockingTime := blockingTime t + bt,
                 totalDuration := totalDuration t + duration,
                 occurrences := occurrences t + 1\<rparr>) tasks)
      else tasks)"

definition aggregate :: "event list \<Rightarrow> task list" where
  "aggregate events = map snd (fold processEvent events [])"

text \<open>
  The classifier as it runs on an element with fields, in the order of evaluation of
  \<^verbatim>\<open>&&\<close>, \<^verbatim>\<open>||\<close> and \<^verbatim>\<open>?.\<close>: a method of strings (\<^verbatim>\<open>includes\<close>, \<^verbatim>\<open>split\<close>,
  \<^verbatim>\<open>toLowerCase\<close>) called on a value that is not a string raises a TypeError. The call
  \<^verbatim>\<open>name?.includes\<close> is made on every name that is not absent, \<^verbatim>\<open>cat?.includes\<close>
  likewise; \<^verbatim>\<open>cat.split\<close> and \<^verbatim>\<open>containsAny\<close> are reached by truthy values only.
\<close>

definition mainThreadCheck :: "rawEvent \<Rightarrow> error + bool" where
  "mainThreadCheck r =
     (if raw_tid r = Some 1 then Inr True
      else
        (let catPart =
               (case raw_cat r of
                  Missing \<Rightarrow> Inr False
                | NotString b txt \<Rightarrow> Inl TypeError
                | IsString c \<Rightarrow> Inr (js_includes c ''devtools.timeline''))
         in case raw_name r of
              Missing \<Rightarrow> catPart
            | NotString b txt \<Rightarrow> Inl TypeError
            | IsString n \<Rightarrow> if js_includes n ''MainThread'' then Inr True else catPart))"

definition categoryCheck :: "rawEvent \<Rightarrow> error + bool" where
  "categoryCheck r =
     (case raw_cat r of
        Missing \<Rightarrow> Inr False
      | NotString b txt \<Rightarrow> if b then Inl TypeError else Inr False
      | IsString c \<Rightarrow>
          Inr (c \<noteq> [] \<and>
               list_ex (\<lambda>pat.
                   list_ex (\<lambda>piece. js_includes (toLowerCase (trim piece)) (toLowerCase pat))
                     (split CHR '','' c))
                 tbtCategories))"

definition taskTypeCheck :: "rawEvent \<Rightarrow> error + bool" where
  "taskTypeCheck r =
     (case raw_name r of
        Missing \<Rightarrow> Inr False
      | NotString b txt \<Rightarrow> if b then Inl TypeError else Inr False
      | IsString n \<Rightarrow> Inr (n \<noteq> [] \<and> containsAny n tbtTaskTypes))"

definition classify :: "rawEvent \<Rightarrow> error + bool" where
  "classify r =
     (if raw_ph r \<noteq> Some ''X'' then Inr False
      else if \<not> truthy_num (raw_dur r) then Inr False
      else
        (case mainThreadCheck r of
           Inl err \<Rightarrow> Inl err
         | Inr m \<Rightarrow>
             if \<not> m then Inr False
             else
               (case categoryCheck r of
                  Inl err \<Rightarrow> Inl err
                | Inr c \<Rightarrow> if c then Inr True else taskTypeCheck r)))"

text \<open>
  What the body of the loop reads of an element that the classifier has accepted: a
  truthy value that is not a string stands with its text, a falsy one is replaced by
  the fallback of \<^verbatim>\<open>||\<close> as an absent one is.
\<close>

fun textOf :: "jsfield \<Rightarrow> string option" where
  "textOf Missing = None"
| "textOf (NotString b txt) = (if b then Some txt else None)"
| "textOf (IsString s) = Some s"

definition view :: "rawEvent \<Rightarrow> event" where
  "view r =
     \<lparr>ev_ph = raw_ph r, ev_dur = raw_dur r, ev_name = textOf (raw_name r),
      ev_cat = textOf (raw_cat r), ev_tid = raw_tid r, ev_url = textOf (raw_url r)\<rparr>"

text \<open>
  The \<^verbatim>\<open>forEach\<close> over the elements: reading \<^verbatim>\<open>event.ph\<close> of \<^verbatim>\<open>null\<close> raises a
  TypeError, and so may the classifier; the exception ends the loop. An element that
  the classifier accepts goes through the body of the loop (\<open>processEvent\<close>, whose own
  test then succeeds, see \<open>classify_accepts\<close> below).
\<close>

fun processElements ::
  "element list \<Rightarrow> (string \<times> task) list \<Rightarrow> error + (string \<times> task) list" where
  "processElements [] tasks = Inr tasks"
| "processElements (NullElement # els) tasks = Inl TypeError"
| "processElements (ObjectElement r # els) tasks =
     (case classify r of
        Inl err \<Rightarrow> Inl err
      | Inr q \<Rightarrow> processElements els (if q then processEvent (view r) tasks else tasks))"

text \<open>\<^verbatim>\<open>processTraceEvents\<close>: on a value that holds no event array the \<^verbatim>\<open>forEach\<close>
  call itself raises a TypeError.\<close>

definition processTraceEvents :: "traceData \<Rightarrow> error + task list" where
  "processTraceEvents td =
     (case td of
        TraceArray events \<Rightarrow>
          (case processElements events [] of Inl err \<Rightarrow> Inl err | Inr tasks \<Rightarrow> Inr (map snd tasks))
      | TraceObject (Some events) \<Rightarrow>
          (case processElements events [] of Inl err \<Rightarrow> Inl err | Inr tasks \<Rightarrow> Inr (map snd tasks))
      | TraceObject None \<Rightarrow> Inl TypeError
      | TraceFalsy \<Rightarrow> Inl TypeError)"

section \<open>Report merger\<close>

subsection \<open>Number formatting\<close>

definition digit_char :: "nat \<Rightarrow> char" where
  "digit_char d = ''0123456789'' ! d"

text \<open>The decimal digits of a natural number (\<^verbatim>\<open>toString\<close> of a count).\<close>

fun digits :: "nat \<Rightarrow> string" where
  "digits n = (if n < 10 then [digit_char n] else digits (n div 10) @ [digit_char (n mod 10)])"

declare digits.simps [simp del]

definition int_to_string :: "int \<Rightarrow> string" where
  "int_to_string i = (if i < 0 then ''-'' @ digits (nat (- i)) else digits (nat i))"

text \<open>
  \<^verbatim>\<open>Number::toString\<close> in its exponential form, which \<^verbatim>\<open>toFixed\<close> falls back to from
  \<open>10\<^sup>2\<^sup>1\<close> on: the significant digits with a point after the first, then
  \<^verbatim>\<open>e+\<close> and the exponent. A double of that size is a whole number; the digits here are
  those of the whole part without its trailing zeros, where the engine prints the
  shortest digit string that reads back as the same double.
\<close>

definition strip_zeros :: "string \<Rightarrow> string" where
  "strip_zeros ds = rev (dropWhile (\<lambda>c. c = CHR ''0'') (rev ds))"

definition exponential :: "number \<Rightarrow> string" where
  "exponential a =
     (let ds = digits (nat \<lfloor>a\<rfloor>);
          sig = strip_zeros ds
      in (if length sig \<le> 1 then sig else hd sig # ''.'' @ tl sig)
         @ ''e+'' @ digits (length ds - 1))"

text \<open>
  \<^verbatim>\<open>x.toFixed(2)\<close> (ECMAScript, Number.prototype.toFixed with 2 fraction digits): the
  sign; from \<open>10\<^sup>2\<^sup>1\<close> on the exponential form; otherwise the integer \<open>n\<close> nearest to
  \<open>100 x\<close> (the larger one at a tie), padded with zeros to at least three digits, with
  a point before the last two.
\<close>

definition toFixed2 :: "number \<Rightarrow> string" where
  "toFixed2 x =
     (let s = (if x < 0 then ''-'' else []);
          a = \<bar>x\<bar>
      in if a \<ge> 10 ^ 21 then s @ exponential a
         else (let n = nat \<lfloor>a * 100 + 1 / 2\<rfloor>;
                   m0 = digits n;
                   m = (if length m0 \<le> 2 then replicate (3 - length m0) CHR ''0'' @ m0 else m0);
                   k = length m
               in s @ take (k - 2) m @ ''.'' @ drop (k - 2) m))"

subsection \<open>Rows and cells\<close>

text \<open>
  A report is an array of rows, a row an array of cells. A cell holds a string; \<open>None\<close>
  is a hole, which an assignment beyond the end of a row leaves behind and which reads
  as \<^verbatim>\<open>undefined\<close>, as does an index past the end.
\<close>

type_synonym cell = "string option"
type_synonym row = "cell list"
type_synonym report = "row list"

definition get_cell :: "row \<Rightarrow> nat \<Rightarrow> cell" where
  "get_cell r j = (if j < length r then r ! j else None)"

text \<open>A cell inside a template literal.\<close>

definition cell_text :: "cell \<Rightarrow> string" where
  "cell_text c = (case c of None \<Rightarrow> ''undefined'' | Some s \<Rightarrow> s)"

definition row_key :: "row \<Rightarrow> string" where
  "row_key r = cell_text (get_cell r 0) @ ''|'' @ cell_text (get_cell r 1)"

definition task_key :: "task \<Rightarrow> string" where
  "task_key t = name t @ ''|'' @ url t"

text \<open>\<^verbatim>\<open>row[j] = v\<close>: past the end the array grows, with holes up to \<open>j\<close>.\<close>

definition set_cell :: "row \<Rightarrow> nat \<Rightarrow> string \<Rightarrow> row" where
  "set_cell r j v =
     (if j < length r then r[j := Some v]
      else r @ replicate (j - length r) None @ [Some v])"

text \<open>\<^verbatim>\<open>report[i].push(...cells)\<close>, for a row index that is in range (every index the
  merger uses is, see \<open>taskMap_in_range\<close> below).\<close>

definition push_cells :: "report \<Rightarrow> nat \<Rightarrow> cell list \<Rightarrow> report" where
  "push_cells rep i cells = rep[i := rep ! i @ cells]"

definition firstHeader :: row where
  "firstHeader =
     [Some ''Task Name'', Some ''URL'', Some ''Category'', Some ''Has Long Tasks'',
      Some ''Run 1 (Blocking Time)'', Some ''Run 1 (Total Duration)'',
      Some ''Run 1 (Occurrences)'']"

definition runLabels :: "int \<Rightarrow> cell list" where
  "runLabels nextRunNumber =
     [Some (''Run '' @ int_to_string nextRunNumber @ '' (Blocking Time)''),
      Some (''Run '' @ int_to_string nextRunNumber @ '' (Total Duration)''),
      Some (''Run '' @ int_to_string nextRunNumber @ '' (Occurrences)'')]"

definition hasLong :: "task \<Rightarrow> string" where
  "hasLong t = (if blockingTime t > 0 then ''Yes'' else ''No'')"

definition metricCells :: "task \<Rightarrow> cell list" where
  "metricCells t =
     [Some (toFixed2 (blockingTime t)), Some (toFixed2 (totalDuration t)),
      Some (digits (occurrences t))]"

definition fixedCells :: "task \<Rightarrow> cell list" where
  "fixedCells t = [Some (name t), Some (url t), Some (category t), Some (hasLong t)]"

definition minusOnes :: "cell list" where
  "minusOnes = [Some ''-1'', Some ''-1'', Some ''-1'']"

subsection \<open>The merge\<close>

text \<open>The map from row key to row index, filled for the rows 1, 2, ... in order; a key
  that occurs again keeps its place and takes the later index.\<close>

definition buildTaskMap :: "report \<Rightarrow> (string \<times> nat) list" where
  "buildTaskMap rep =
     fold (\<lambda>i m. AList.update (row_key (rep ! i)) i m) [1 ..< length rep] []"

text \<open>
  The body of \<^verbatim>\<open>tasks.forEach\<close> in the merge: the state is the report, the task map and
  the set of keys updated in this run. The loop that fills the earlier runs of a new row
  with \<^verbatim>\<open>-1\<close> runs \<open>runCount\<close> times, and not at all when \<open>runCount\<close> is negative.
\<close>

type_synonym merge_state = "report \<times> (string \<times> nat) list \<times> string set"

fun mergeTask :: "int \<Rightarrow> task \<Rightarrow> merge_state \<Rightarrow> merge_state" where
  "mergeTask runCount t (rep, taskMap, updatedTasks) =
     (let taskKey = task_key t in
      case map_of taskMap taskKey of
        None \<Rightarrow>
          (let rowIndex = length rep;
               newRow = fixedCells t @ concat (replicate (nat runCount) minusOnes);
               rep' = rep @ [newRow];
               taskMap' = AList.update taskKey rowIndex taskMap
           in (push_cells rep' rowIndex (metricCells t), taskMap',
               insert taskKey updatedTasks))
      | Some rowIndex \<Rightarrow>
          (let rep' = (if blockingTime t > 0
                       then rep[rowIndex := set_cell (rep ! rowIndex) 3 ''Yes'']
                       else rep)
           in (push_cells rep' rowIndex (metricCells t), taskMap,
               insert taskKey updatedTasks)))"

definition fillAbsent :: "string set \<Rightarrow> string \<times> nat \<Rightarrow> report \<Rightarrow> report" where
  "fillAbsent updatedTasks entry rep =
     (if fst entry \<notin> updatedTasks then push_cells rep (snd entry) minusOnes else rep)"

text \<open>
  \<^verbatim>\<open>updateReport\<close>. On a report with a header: the run count read off the header, the
  three labels of the next run pushed on the header, the task map built, the tasks
  merged, and at the end \<^verbatim>\<open>-1\<close> cells pushed on the row of every key in the map that
  this run did not update.
\<close>

definition runCount :: "report \<Rightarrow> int" where
  "runCount existingReport = (int (length (hd existingReport)) - 4) div 3"

definition withRunHeader :: "report \<Rightarrow> report" where
  "withRunHeader existingReport =
     existingReport[0 := hd existingReport @ runLabels (runCount existingReport + 1)]"

definition mergeTasks :: "report \<Rightarrow> task list \<Rightarrow> merge_state" where
  "mergeTasks existingReport tasks =
     fold (mergeTask (runCount existingReport)) tasks
       (withRunHeader existingReport, buildTaskMap (withRunHeader existingReport), {})"

definition updateReport :: "report \<Rightarrow> task list \<Rightarrow> report" where
  "updateReport existingReport tasks =
     (if existingReport = [] then
        firstHeader # map (\<lambda>t. fixedCells t @ metricCells t) tasks
      else
        (case mergeTasks existingReport tasks of
           (rep2, taskMap2, updatedTasks) \<Rightarrow>
             fold (fillAbsent updatedTasks) taskMap2 rep2))"

text \<open>Sequential runs, starting from the empty report.\<close>

definition runs :: "task list list \<Rightarrow> report" where
  "runs tss = foldl updateReport [] tss"

section \<open>The run: trace file in, report file out\<close>

text \<open>
  The file system is a map from paths to file contents. \<^verbatim>\<open>JSON.parse\<close> is a parameter
  of the model: it gives the parsed trace or the message of the syntax error. What the
  program prints on the console is left out, and with it the debug listing, which only
  prints. Directories are left out too: a path either names a file or nothing, and the
  calls that read and write files do not fail.
\<close>

type_synonym fs = "string \<rightharpoonup> string"

definition parseCSV :: "string \<Rightarrow> report" where
  "parseCSV content =
     (if trim content = [] then []
      else map (\<lambda>line. map Some (split CHR 0x09 line)) (split CHR 0x0A (trim content)))"

text \<open>\<^verbatim>\<open>Array.prototype.join\<close>; a hole joins as the empty string.\<close>

fun join :: "string \<Rightarrow> string list \<Rightarrow> string" where
  "join sep [] = []"
| "join sep [x] = x"
| "join sep (x # y # ys) = x @ sep @ join sep (y # ys)"

definition cell_join :: "cell \<Rightarrow> string" where
  "cell_join c = (case c of None \<Rightarrow> [] | Some s \<Rightarrow> s)"

definition writeReport :: "fs \<Rightarrow> string \<Rightarrow> report \<Rightarrow> fs" where
  "writeReport files reportPath rep =
     (let existingContent = (case files reportPath of None \<Rightarrow> [] | Some c \<Rightarrow> c);
          content = join [CHR 0x0A] (map (\<lambda>r. join [CHR 0x09] (map cell_join r)) rep)
      in if content \<noteq> existingContent then files(reportPath \<mapsto> content) else files)"

text \<open>The shape test of \<^verbatim>\<open>analyzeTrace\<close>:
  \<^verbatim>\<open>!traceData || (!Array.isArray(traceData) && !Array.isArray(traceData.traceEvents))\<close>.\<close>

definition invalidTrace :: "traceData \<Rightarrow> bool" where
  "invalidTrace td =
     (case td of
        TraceFalsy \<Rightarrow> True
      | TraceArray events \<Rightarrow> False
      | TraceObject None \<Rightarrow> True
      | TraceObject (Some events) \<Rightarrow> False)"

text \<open>
  \<^verbatim>\<open>analyzeTraceMetadata\<close>, the debug listing, as far as it can fail: it reads
  \<^verbatim>\<open>event.cat\<close> of every element and calls \<^verbatim>\<open>split\<close> on every truthy category.
\<close>

fun analyzeTraceMetadata :: "element list \<Rightarrow> error option" where
  "analyzeTraceMetadata [] = None"
| "analyzeTraceMetadata (NullElement # els) = Some TypeError"
| "analyzeTraceMetadata (ObjectElement r # els) =
     (case raw_cat r of
        NotString b txt \<Rightarrow> if b then Some TypeError else analyzeTraceMetadata els
      | Missing \<Rightarrow> analyzeTraceMetadata els
      | IsString c \<Rightarrow> analyzeTraceMetadata els)"

definition eventsOf :: "traceData \<Rightarrow> element list" where
  "eventsOf td =
     (case td of
        TraceArray events \<Rightarrow> events
      | TraceObject (Some events) \<Rightarrow> events
      | TraceObject None \<Rightarrow> []
      | TraceFalsy \<Rightarrow> [])"

text \<open>
  \<^verbatim>\<open>analyzeTrace\<close>, with the debug flag of the command line: the result is the error
  that ended the run (\<open>None\<close> when it ran to its end) and the file system it leaves.
\<close>

definition analyzeTrace ::
  "(string \<Rightarrow> string + traceData) \<Rightarrow> bool \<Rightarrow> fs \<Rightarrow> string \<Rightarrow> string \<Rightarrow> error option \<times> fs"
  where
  "analyzeTrace parse debug files tracePath reportPath =
     (case files tracePath of
        None \<Rightarrow> (Some (InputFileNotFound tracePath), files)
      | Some fileContent \<Rightarrow>
          (case parse fileContent of
             Inl msg \<Rightarrow> (Some (JsonParseFailed msg), files)
           | Inr td \<Rightarrow>
               if invalidTrace td then (Some InvalidTraceFormat, files)
               else
                 (case (if debug then analyzeTraceMetadata (eventsOf td) else None) of
                    Some err \<Rightarrow> (Some err, files)
                  | None \<Rightarrow>
                      (let existingReport =
                             (case files reportPath of None \<Rightarrow> [] | Some c \<Rightarrow> parseCSV c)
                       in case processTraceEvents td of
                            Inl err \<Rightarrow> (Some err, files)
                          | Inr tasks \<Rightarrow>
                              (None, writeReport files reportPath
                                       (updateReport existingReport tasks))))))"

section \<open>Notions used in the statements and proofs\<close>

definition is_digit :: "char \<Rightarrow> bool" where
  "is_digit c = (c \<in> set ''0123456789'')"

text \<open>A plain integer string: one or more decimal digits.\<close>

definition is_integer_string :: "string \<Rightarrow> bool" where
  "is_integer_string s = (s \<noteq> [] \<and> list_all is_digit s)"

text \<open>A decimal string with exactly two fraction digits: an optional minus sign, one or
  more digits, a point, two digits.\<close>

definition is_fixed2 :: "string \<Rightarrow> bool" where
  "is_fixed2 s =
     (let t = (case s of [] \<Rightarrow> [] | c # cs \<Rightarrow> if c = CHR ''-'' then cs else s);
          k = length t
      in 4 \<le> k \<and> is_integer_string (take (k - 3) t) \<and> t ! (k - 3) = CHR ''.''
         \<and> list_all is_digit (drop (k - 2) t))"

text \<open>The number that a string of decimal digits denotes.\<close>

definition digit_value :: "char \<Rightarrow> nat" where
  "digit_value c = of_char c - 48"

definition decimal_value :: "string \<Rightarrow> nat" where
  "decimal_value s = foldl (\<lambda>a c. 10 * a + digit_value c) 0 s"

text \<open>The identity of a data row: its first two cells.\<close>

definition row_pair :: "row \<Rightarrow> cell \<times> cell" where
  "row_pair r = (get_cell r 0, get_cell r 1)"

definition task_pair :: "task \<Rightarrow> string \<times> string" where
  "task_pair t = (name t, url t)"

text \<open>
  How a row may change in a merge: it keeps its cells and may get more at the end; only
  the cell at index 3 (Has Long Tasks) may change, and only to \<^verbatim>\<open>Yes\<close>; no cell at
  index 3 comes to hold \<^verbatim>\<open>No\<close>.
\<close>

definition row_grows :: "row \<Rightarrow> row \<Rightarrow> bool" where
  "row_grows r r' \<longleftrightarrow>
     length r \<le> length r'
     \<and> (\<forall>j<length r. j \<noteq> 3 \<longrightarrow> r' ! j = r ! j)
     \<and> (3 < length r \<longrightarrow> r' ! 3 = r ! 3 \<or> r' ! 3 = Some ''Yes'')
     \<and> (get_cell r' 3 = Some ''No'' \<longrightarrow> get_cell r 3 = Some ''No'')"

text \<open>A report grows: its rows stay in place, each may grow, rows may follow.\<close>

definition rep_grows :: "report \<Rightarrow> report \<Rightarrow> bool" where
  "rep_grows rep rep' \<longleftrightarrow>
     length rep \<le> length rep' \<and> (\<forall>i<length rep. row_grows (rep ! i) (rep' ! i))"

text \<open>
  A report whose task map is complete: there is a header, every data row has its two
  identifying cells and its key in the map, and no two data rows have the same pair.
\<close>

definition keyed :: "report \<Rightarrow> (string \<times> nat) list \<Rightarrow> bool" where
  "keyed rep tm \<longleftrightarrow>
     rep \<noteq> []
     \<and> (\<forall>i. 1 \<le> i \<and> i < length rep \<longrightarrow>
           2 \<le> length (rep ! i) \<and> map_of tm (row_key (rep ! i)) \<noteq> None)
     \<and> distinct (map row_pair (tl rep))"

text \<open>A report as the merger leaves it: a header, data rows with their two identifying
  cells, no pair twice.\<close>

definition unique_rows :: "report \<Rightarrow> bool" where
  "unique_rows rep \<longleftrightarrow>
     rep \<noteq> []
     \<and> (\<forall>i. 1 \<le> i \<and> i < length rep \<longrightarrow> 2 \<le> length (rep ! i))
     \<and> distinct (map row_pair (tl rep))"

text \<open>
  The state of a merge into the report \<open>r\<close> with a header of \<open>H\<close> cells, while every
  row is in step: the task map leads from each key to the one data row that has it, a
  row whose key this run has updated has \<open>H + 3\<close> cells, and any other row is still
  the row of \<open>r\<close>, with \<open>H\<close> cells.
\<close>

definition aligned ::
  "report \<Rightarrow> nat \<Rightarrow> report \<Rightarrow> (string \<times> nat) list \<Rightarrow> string set \<Rightarrow> bool" where
  "aligned r H rep tm upd \<longleftrightarrow>
     1 \<le> length r \<and> length r \<le> length rep
     \<and> distinct (map fst tm)
     \<and> (\<forall>k i. map_of tm k = Some i \<longleftrightarrow> 1 \<le> i \<and> i < length rep \<and> row_key (rep ! i) = k)
     \<and> (\<forall>i. 1 \<le> i \<and> i < length rep \<longrightarrow>
           (if row_key (rep ! i) \<in> upd then length (rep ! i) = H + 3
            else i < length r \<and> rep ! i = r ! i \<and> length (rep ! i) = H))"

text \<open>The parsed trace is an array of events or an object that holds one.\<close>

definition hasEventArray :: "traceData \<Rightarrow> bool" where
  "hasEventArray td =
     (case td of
        TraceArray events \<Rightarrow> True
      | TraceObject (Some events) \<Rightarrow> True
      | TraceObject None \<Rightarrow> False
      | TraceFalsy \<Rightarrow> False)"

text \<open>
  For the aggregator: the key string of an event, the qualifying events of a trace with
  a given key, the duration of an event in milliseconds and the category that a new
  task takes from its event.
\<close>

definition event_key :: "event \<Rightarrow> string" where
  "event_key e = getEventKey e @ ''|'' @ getEventUrl e"

definition matching :: "string \<Rightarrow> event list \<Rightarrow> event list" where
  "matching k evs = filter (\<lambda>e. isPotentialTBTTask e \<and> event_key e = k) evs"

definition durationMs :: "event \<Rightarrow> number" where
  "durationMs e = (case ev_dur e of None \<Rightarrow> 0 | Some d \<Rightarrow> d / 1000)"

definition eventCategory :: "event \<Rightarrow> string" where
  "eventCategory e =
     (case ev_cat e of None \<Rightarrow> ''unknown'' | Some c \<Rightarrow> if c \<noteq> [] then c else ''unknown'')"

definition taskOf :: "event list \<Rightarrow> task option" where
  "taskOf es =
     (case es of
        [] \<Rightarrow> None
      | e # es' \<Rightarrow>
          Some \<lparr>name = getEventKey e, url = getEventUrl e,
                blockingTime = sum_list (map calculateBlockingTime es),
                totalDuration = sum_list (map durationMs es),
                occurrences = length es,
                category = eventCategory e\<rparr>)"

text \<open>
  An event with fields of the expected types as an element of the array, and the
  events that the loop takes up from a list of elements.
\<close>

fun fieldOf :: "string option \<Rightarrow> jsfield" where
  "fieldOf None = Missing"
| "fieldOf (Some s) = IsString s"

definition raw :: "event \<Rightarrow> rawEvent" where
  "raw e =
     \<lparr>raw_ph = ev_ph e, raw_dur = ev_dur e, raw_name = fieldOf (ev_name e),
      raw_cat = fieldOf (ev_cat e), raw_tid = ev_tid e, raw_url = fieldOf (ev_url e)\<rparr>"

fun accepted :: "element list \<Rightarrow> event list" where
  "accepted [] = []"
| "accepted (NullElement # els) = accepted els"
| "accepted (ObjectElement r # els) =
     (if classify r = Inr True then view r # accepted els else accepted els)"

section \<open>Example inputs\<close>

text \<open>The event of the end-to-end example: a script evaluation of 150 ms on thread 1.\<close>

definition scriptEvent :: event where
  "scriptEvent =
     \<lparr>ev_ph = Some ''X'', ev_dur = Some 150000, ev_name = Some ''EvaluateScript'',
      ev_cat = Some ''devtools.timeline,v8'', ev_tid = Some 1, ev_url = None\<rparr>"



text \<open>The task that the aggregator makes of \<open>scriptEvent\<close>, and a task that did not block.\<close>

definition scriptTask :: task where
  "scriptTask =
     \<lparr>name = ''EvaluateScript'', url = [], blockingTime = 100, totalDuration = 150,
      occurrences = 1, category = ''devtools.timeline,v8''\<rparr>"

definition layoutTask :: task where
  "layoutTask =
     \<lparr>name = ''Layout'', url = ''http://localhost/'', blockingTime = 0,
      totalDuration = 37 / 3, occurrences = 12, category = ''devtools.timeline''\<rparr>"

text \<open>A task whose times have reached \<open>10\<^sup>2\<^sup>1\<close> ms.\<close>

definition hugeTask :: task where
  "hugeTask =
     \<lparr>name = ''RunTask'', url = [], blockingTime = 10 ^ 21, totalDuration = 10 ^ 21,
      occurrences = 1, category = ''scripting''\<rparr>"

text \<open>The report after a first run with \<open>scriptTask\<close>.\<close>

definition firstReport :: report where
  "firstReport =
     [firstHeader,
      [Some ''EvaluateScript'', Some [], Some ''devtools.timeline,v8'', Some ''Yes'',
       Some ''100.00'', Some ''150.00'', Some ''1'']]"

text \<open>A later run of the script task, in which it did not block.\<close>

definition quickScriptTask :: task where
  "quickScriptTask =
     \<lparr>name = ''EvaluateScript'', url = [], blockingTime = 0, totalDuration = 20,
      occurrences = 2, category = ''devtools.timeline,v8''\<rparr>"

text \<open>A report in which the script task has not blocked so far.\<close>

definition quietReport :: report where
  "quietReport =
     [firstHeader,
      [Some ''EvaluateScript'', Some [], Some ''devtools.timeline,v8'', Some ''No'',
       Some ''0.00'', Some ''20.00'', Some ''2'']]"

text \<open>Two complete scripting events on thread 1 whose names and URLs differ and whose
  keys \<^verbatim>\<open>name|url\<close> are the same string \<^verbatim>\<open>Task|A|\<close>.\<close>

definition pipeEvent1 :: event where
  "pipeEvent1 =
     \<lparr>ev_ph = Some ''X'', ev_dur = Some 60000, ev_name = Some ''Task|A'',
      ev_cat = Some ''scripting'', ev_tid = Some 1, ev_url = None\<rparr>"

definition pipeEvent2 :: event where
  "pipeEvent2 =
     \<lparr>ev_ph = Some ''X'', ev_dur = Some 70000, ev_name = Some ''Task'',
      ev_cat = Some ''v8'', ev_tid = Some 1, ev_url = Some ''A|''\<rparr>"

text \<open>The first report with its data row twice, and a report whose header has five
  cells.\<close>

definition twinReport :: report where
  "twinReport =
     [firstHeader,
      [Some ''EvaluateScript'', Some [], Some ''devtools.timeline,v8'', Some ''Yes'',
       Some ''100.00'', Some ''150.00'', Some ''1''],
      [Some ''EvaluateScript'', Some [], Some ''devtools.timeline,v8'', Some ''Yes'',
       Some ''100.00'', Some ''150.00'', Some ''1'']]"

definition fiveColumnReport :: report where
  "fiveColumnReport =
     [[Some ''Task Name'', Some ''URL'', Some ''Category'', Some ''Has Long Tasks'',
       Some ''Notes''],
      [Some ''EvaluateScript'', Some [], Some ''devtools.timeline,v8'', Some ''Yes'',
       Some ''none'']]"

text \<open>A file system with a trace file that holds an object without events, and a report
  file; a parser for its content.\<close>

definition someFiles :: fs where
  "someFiles = [''trace.json'' \<mapsto> ''{}'', ''report.tsv'' \<mapsto> ''Task Name'']"

definition someParse :: "string \<Rightarrow> string + traceData" where
  "someParse content =
     (if content = ''{}'' then Inr (TraceObject None)
      else Inl ''Unexpected token'')"

text \<open>A trace file with the script event and then \<^verbatim>\<open>null\<close>, and one with a complete
  event on thread 2 whose name is the number 5.\<close>

definition nullFiles :: fs where
  "nullFiles = [''trace.json'' \<mapsto> ''[e, null]'', ''report.tsv'' \<mapsto> ''Task Name'']"

definition nullParse :: "string \<Rightarrow> string + traceData" where
  "nullParse content =
     (if content = ''[e, null]'' then Inr (TraceArray [ObjectElement (raw scriptEvent), NullElement])
      else Inl ''Unexpected token'')"

definition numberNamed :: rawEvent where
  "numberNamed =
     \<lparr>raw_ph = Some ''X'', raw_dur = Some 1000, raw_name = NotString True ''5'',
      raw_cat = IsString ''v8'', raw_tid = Some 2, raw_url = Missing\<rparr>"

text \<open>The quiet report with its data row twice.\<close>

definition quietTwinReport :: report where
  "quietTwinReport =
     [firstHeader,
      [Some ''EvaluateScript'', Some [], Some ''devtools.timeline,v8'', Some ''No'',
       Some ''0.00'', Some ''20.00'', Some ''2''],
      [Some ''EvaluateScript'', Some [], Some ''devtools.timeline,v8'', Some ''No'',
       Some ''0.00'', Some ''20.00'', Some ''2'']]"

section \<open>Strings\<close>













section \<open>Properties of the classifier and of the blocking time\<close>

text \<open>
  Claim C4. For an event with a duration \<open>d\<close> (microseconds), \<open>calculateBlockingTime\<close>
  is 0 when \<open>d / 1000\<close> is at most 50 and \<open>d / 1000 - 50\<close> otherwise, that is
  \<open>max 0 (d / 1000 - 50)\<close>, and it is never negative.
\<close>

theorem calculateBlockingTime_rule:
  assumes "ev_dur e = Some d"
  shows "calculateBlockingTime e = (if d / 1000 \<le> 50 then 0 else d / 1000 - 50)
         \<and> calculateBlockingTime e = max 0 (d / 1000 - 50)
         \<and> 0 \<le> calculateBlockingTime e"
  using assms by (auto simp: calculateBlockingTime_def Let_def)

theorem calculateBlockingTime_rule_witness:
  "ev_dur scriptEvent = Some 150000 \<and> calculateBlockingTime scriptEvent = 100"
proof -
  have d: "ev_dur scriptEvent = Some 150000" by (simp add: scriptEvent_def)
  show ?thesis using d calculateBlockingTime_rule [OF d] by simp
qed

text \<open>
  Claim C5. An event without a duration (the field is absent or is zero), or whose phase
  is not \<^verbatim>\<open>X\<close>, is not a potential TBT task.
\<close>

theorem isPotentialTBTTask_needs_duration_and_phase:
  assumes "ev_dur e = None \<or> ev_dur e = Some 0 \<or> ev_ph e \<noteq> Some ''X''"
  shows "\<not> isPotentialTBTTask e"
  using assms by (auto simp: isPotentialTBTTask_def)

theorem isPotentialTBTTask_needs_duration_and_phase_witness:
  "isPotentialTBTTask scriptEvent
   \<and> ev_dur (scriptEvent\<lparr>ev_dur := None\<rparr>) = None
   \<and> \<not> isPotentialTBTTask (scriptEvent\<lparr>ev_dur := None\<rparr>)"
proof -
  have q: "isPotentialTBTTask scriptEvent" by code_simp
  have d: "ev_dur (scriptEvent\<lparr>ev_dur := None\<rparr>) = None" by simp
  show ?thesis
    using q d isPotentialTBTTask_needs_duration_and_phase [of "scriptEvent\<lparr>ev_dur := None\<rparr>"]
    by simp
qed




section \<open>Number formatting\<close>

lemma digit_char_is_digit: "d < 10 \<Longrightarrow> is_digit (digit_char d)"
proof -
  assume "d < 10"
  then have "d \<in> {0,1,2,3,4,5,6,7,8,9}" by auto
  then show ?thesis by (auto simp: is_digit_def digit_char_def)
qed

lemma digit_value_digit_char: "d < 10 \<Longrightarrow> digit_value (digit_char d) = d"
proof -
  assume "d < 10"
  then have "d \<in> {0,1,2,3,4,5,6,7,8,9}" by auto
  then show ?thesis by (auto simp: digit_value_def digit_char_def)
qed

lemma digits_nonempty: "digits n \<noteq> []"
  by (subst digits.simps) simp

lemma digits_all_digit: "list_all is_digit (digits n)"
proof (induction n rule: digits.induct)
  case (1 n)
  show ?case
  proof (cases "n < 10")
    case True
    then show ?thesis by (subst digits.simps) (simp add: digit_char_is_digit)
  next
    case False
    then show ?thesis using 1 by (subst digits.simps) (simp add: digit_char_is_digit)
  qed
qed

lemma digits_integer_string: "is_integer_string (digits n)"
  by (simp add: is_integer_string_def digits_nonempty digits_all_digit)

text \<open>The digits of a number denote it.\<close>

lemma decimal_value_digits: "decimal_value (digits n) = n"
proof (induction n rule: digits.induct)
  case (1 n)
  show ?case
  proof (cases "n < 10")
    case True
    then show ?thesis
      by (subst digits.simps) (simp add: decimal_value_def digit_value_digit_char)
  next
    case False
    then have "decimal_value (digits (n div 10)) = n div 10" using 1 by simp
    then show ?thesis using False
      by (subst digits.simps) (simp add: decimal_value_def digit_value_digit_char)
  qed
qed

lemma is_fixed2_plain:
  assumes "a \<noteq> []" "list_all is_digit a" "length b = 2" "list_all is_digit b"
  shows "is_fixed2 (a @ ''.'' @ b)"
proof -
  obtain c cs where a: "a = c # cs" using assms(1) by (cases a) auto
  have "is_digit c" using assms(2) a by simp
  then have "c \<noteq> CHR ''-''" by (auto simp: is_digit_def)
  then show ?thesis
    using assms a by (simp add: is_fixed2_def is_integer_string_def nth_append)
qed

lemma is_fixed2_minus:
  assumes "a \<noteq> []" "list_all is_digit a" "length b = 2" "list_all is_digit b"
  shows "is_fixed2 (''-'' @ a @ ''.'' @ b)"
  using assms by (cases a) (simp_all add: is_fixed2_def is_integer_string_def nth_append)

text \<open>Below \<open>10\<^sup>2\<^sup>1\<close> in magnitude, \<open>toFixed2\<close> gives two fraction digits.\<close>

lemma toFixed2_is_fixed2:
  assumes "\<bar>x\<bar> < 10 ^ 21"
  shows "is_fixed2 (toFixed2 x)"
proof -
  define m0 where "m0 = digits (nat \<lfloor>\<bar>x\<bar> * 100 + 1 / 2\<rfloor>)"
  define m where "m = (if length m0 \<le> 2 then replicate (3 - length m0) CHR ''0'' @ m0 else m0)"
  have m0: "m0 \<noteq> []" "list_all is_digit m0"
    by (simp_all add: m0_def digits_nonempty digits_all_digit)
  have z: "is_digit CHR ''0''" by (simp add: is_digit_def)
  have len: "3 \<le> length m" using m0 by (auto simp: m_def)
  have dig: "list_all is_digit m" using m0 z by (auto simp: m_def list_all_iff)
  define a where "a = take (length m - 2) m"
  define b where "b = drop (length m - 2) m"
  have a: "a \<noteq> []" "list_all is_digit a" using len dig
    by (auto simp: a_def list_all_iff dest: in_set_takeD)
  have b: "length b = 2" "list_all is_digit b" using len dig
    by (auto simp: b_def list_all_iff dest: in_set_dropD)
  have "toFixed2 x = (if x < 0 then ''-'' else []) @ a @ ''.'' @ b"
    using assms by (simp add: toFixed2_def Let_def m0_def m_def a_def b_def)
  then show ?thesis using is_fixed2_plain [OF a b] is_fixed2_minus [OF a b] by simp
qed

lemma floor_rat_numeral: "\<lfloor>(numeral a :: rat) / numeral b\<rfloor> = numeral a div numeral b"
  using floor_divide_of_int_eq [of "numeral a" "numeral b", where 'a = rat] by simp

lemma toFixed2_huge: "toFixed2 (10 ^ 21) = ''1e+21''"
  apply (simp add: toFixed2_def exponential_def)
  apply (simp add: digits.simps digit_char_def strip_zeros_def)
  done

lemma toFixed2_100: "toFixed2 100 = ''100.00''"
  apply (simp add: toFixed2_def floor_rat_numeral)
  apply (simp add: digits.simps digit_char_def)
  done

lemma toFixed2_150: "toFixed2 150 = ''150.00''"
  apply (simp add: toFixed2_def floor_rat_numeral)
  apply (simp add: digits.simps digit_char_def)
  done

section \<open>The first run\<close>

text \<open>
  Claim C7, as stated, fails in one point: \<^verbatim>\<open>toFixed(2)\<close> prints a number from
  \<open>10\<^sup>2\<^sup>1\<close> on in exponential form, without fraction digits. The first report of
  \<open>hugeTask\<close> has the cell \<^verbatim>\<open>1e+21\<close> for its blocking time.
\<close>

theorem first_run_huge_time_not_two_decimals:
  "updateReport [] [hugeTask] ! 1 ! 4 = Some ''1e+21'' \<and> \<not> is_fixed2 ''1e+21''"
proof -
  have "updateReport [] [hugeTask] ! 1 ! 4 = Some ''1e+21''"
    by (simp add: updateReport_def hugeTask_def fixedCells_def metricCells_def
        toFixed2_huge [simplified])
  moreover have "\<not> is_fixed2 ''1e+21''"
    by (simp add: is_fixed2_def is_integer_string_def is_digit_def)
  ultimately show ?thesis by simp
qed

text \<open>
  Claim C7, amended. Merging \<open>N\<close> tasks into the empty report gives \<open>N + 1\<close> rows under
  a header of \<open>4 + 3\<close> columns; the row of a task holds its name, URL and category,
  \<^verbatim>\<open>Yes\<close> exactly when its blocking time is positive, the two times through
  \<^verbatim>\<open>toFixed(2)\<close>, which for a time below \<open>10\<^sup>2\<^sup>1\<close> in magnitude is a decimal string with
  exactly two fraction digits, and the occurrences as the plain digit string that
  denotes the count.
\<close>

theorem first_run_report:
  "length (updateReport [] tasks) = length tasks + 1
   \<and> hd (updateReport [] tasks) = firstHeader
   \<and> length (hd (updateReport [] tasks)) = 4 + 3
   \<and> (\<forall>i<length tasks.
        updateReport [] tasks ! (i + 1) =
          [Some (name (tasks ! i)), Some (url (tasks ! i)), Some (category (tasks ! i)),
           Some (if blockingTime (tasks ! i) > 0 then ''Yes'' else ''No''),
           Some (toFixed2 (blockingTime (tasks ! i))),
           Some (toFixed2 (totalDuration (tasks ! i))),
           Some (digits (occurrences (tasks ! i)))]
        \<and> (\<bar>blockingTime (tasks ! i)\<bar> < 10 ^ 21
             \<longrightarrow> is_fixed2 (toFixed2 (blockingTime (tasks ! i))))
        \<and> (\<bar>totalDuration (tasks ! i)\<bar> < 10 ^ 21
             \<longrightarrow> is_fixed2 (toFixed2 (totalDuration (tasks ! i))))
        \<and> is_integer_string (digits (occurrences (tasks ! i)))
        \<and> decimal_value (digits (occurrences (tasks ! i))) = occurrences (tasks ! i))"
  by (simp add: updateReport_def firstHeader_def fixedCells_def metricCells_def hasLong_def
      toFixed2_is_fixed2 digits_integer_string decimal_value_digits)

theorem first_run_report_witness:
  "updateReport [] [scriptTask] =
     [firstHeader,
      [Some ''EvaluateScript'', Some [], Some ''devtools.timeline,v8'', Some ''Yes'',
       Some ''100.00'', Some ''150.00'', Some ''1'']]
   \<and> is_fixed2 ''100.00'' \<and> is_fixed2 ''150.00'' \<and> is_integer_string ''1''"
proof -
  have d: "digits (Suc 0) = ''1''" by (simp add: digits.simps digit_char_def)
  have two: "xs = [hd xs, xs ! 1]" if "length xs = 2" for xs :: report
    using that by (cases xs; cases "tl xs") auto
  have len: "length (updateReport [] [scriptTask]) = 2"
    using first_run_report [of "[scriptTask]"] by simp
  have h: "hd (updateReport [] [scriptTask]) = firstHeader"
    using first_run_report [of "[scriptTask]"] by simp
  have r: "updateReport [] [scriptTask] ! 1 =
      [Some ''EvaluateScript'', Some [], Some ''devtools.timeline,v8'', Some ''Yes'',
       Some ''100.00'', Some ''150.00'', Some ''1'']"
    using first_run_report [of "[scriptTask]"]
    by (simp add: scriptTask_def toFixed2_100 toFixed2_150 d)
  have f: "is_fixed2 ''100.00'' \<and> is_fixed2 ''150.00'' \<and> is_integer_string ''1''"
    using first_run_report [of "[scriptTask]"]
    by (simp add: scriptTask_def toFixed2_100 toFixed2_150 d)
  show ?thesis using two [OF len] h r f by simp
qed

section \<open>Rows that grow\<close>

lemma row_grows_refl: "row_grows r r"
  by (simp add: row_grows_def)

lemma row_grows_trans:
  assumes "row_grows a b" "row_grows b c"
  shows "row_grows a c"
proof -
  have len: "length a \<le> length b" "length b \<le> length c"
    using assms by (simp_all add: row_grows_def)
  have keep: "c ! j = a ! j" if "j < length a" "j \<noteq> 3" for j
    using assms that len by (simp add: row_grows_def)
  have three: "c ! 3 = a ! 3 \<or> c ! 3 = Some ''Yes''" if "3 < length a"
    using assms that len unfolding row_grows_def
    by (metis less_le_trans)
  have no: "get_cell a 3 = Some ''No''" if "get_cell c 3 = Some ''No''"
    using assms that by (simp add: row_grows_def)
  show ?thesis
    unfolding row_grows_def using len keep three no by auto
qed

lemma row_grows_append:
  assumes "Some ''No'' \<notin> set cells"
  shows "row_grows r (r @ cells)"
proof -
  have "get_cell r 3 = Some ''No''" if "get_cell (r @ cells) 3 = Some ''No''"
  proof (cases "3 < length r")
    case True
    then show ?thesis using that by (simp add: get_cell_def nth_append)
  next
    case False
    then have "3 - length r < length cells" and "cells ! (3 - length r) = Some ''No''"
      using that by (auto simp: get_cell_def nth_append split: if_splits)
    then have "Some ''No'' \<in> set cells" by (metis nth_mem)
    then show ?thesis using assms by simp
  qed
  then show ?thesis by (auto simp: row_grows_def nth_append)
qed

lemma row_grows_set_cell: "row_grows r (set_cell r 3 ''Yes'')"
  by (auto simp: row_grows_def set_cell_def get_cell_def nth_append)

lemma rep_grows_refl: "rep_grows rep rep"
  by (simp add: rep_grows_def row_grows_refl)

lemma rep_grows_trans:
  assumes "rep_grows a b" "rep_grows b c"
  shows "rep_grows a c"
  using assms unfolding rep_grows_def
  by (meson le_trans less_le_trans row_grows_trans)

lemma rep_grows_update:
  assumes "row_grows (rep ! i) r'"
  shows "rep_grows rep (rep[i := r'])"
proof -
  have "row_grows (rep ! j) (rep[i := r'] ! j)" if "j < length rep" for j
    using assms that by (cases "j = i") (simp_all add: row_grows_refl)
  then show ?thesis by (simp add: rep_grows_def)
qed

lemma rep_grows_snoc: "rep_grows rep (rep @ rows)"
  by (simp add: rep_grows_def nth_append row_grows_refl)

text \<open>What a row key and a row pair read lies in the first two cells.\<close>

lemma row_grows_key:
  assumes "row_grows r r'" "2 \<le> length r"
  shows "row_key r' = row_key r" and "row_pair r' = row_pair r"
proof -
  have all: "\<forall>j<length r. j \<noteq> 3 \<longrightarrow> r' ! j = r ! j" and len: "length r \<le> length r'"
    using assms(1) by (simp_all add: row_grows_def)
  have "0 < length r \<and> (0::nat) \<noteq> 3" using assms(2) by auto
  then have "r' ! 0 = r ! 0" using all by blast
  moreover have "1 < length r \<and> (1::nat) \<noteq> 3" using assms(2) by auto
  then have "r' ! 1 = r ! 1" using all by blast
  moreover have "2 \<le> length r'" using len assms(2) by simp
  ultimately have "r' ! 0 = r ! 0" "r' ! 1 = r ! 1" "2 \<le> length r'" by simp_all
  moreover have "0 < length r" "1 < length r" "0 < length r'" "1 < length r'"
    using assms(2) len by auto
  ultimately show "row_key r' = row_key r" and "row_pair r' = row_pair r"
    by (simp_all add: row_key_def row_pair_def get_cell_def)
qed

lemma row_grows_yes:
  assumes "row_grows r r'" "get_cell r 3 = Some ''Yes''"
  shows "get_cell r' 3 = Some ''Yes''"
proof -
  have "3 < length r" using assms(2) by (auto simp: get_cell_def split: if_splits)
  then show ?thesis using assms by (auto simp: row_grows_def get_cell_def)
qed

section \<open>Cells that are pushed\<close>

lemma toFixed2_not_No: "toFixed2 x \<noteq> ''No''"
proof -
  have "CHR ''.'' \<in> set (toFixed2 x) \<or> CHR ''e'' \<in> set (toFixed2 x)"
    by (simp add: toFixed2_def exponential_def Let_def)
  then show ?thesis by auto
qed

lemma digits_not_No: "digits n \<noteq> ''No''"
proof
  assume "digits n = ''No''"
  then have "list_all is_digit ''No''" using digits_all_digit [of n] by simp
  then show False by (simp add: is_digit_def)
qed

lemma metricCells_not_No: "Some ''No'' \<notin> set (metricCells t)"
  using toFixed2_not_No [of "blockingTime t"] toFixed2_not_No [of "totalDuration t"]
    digits_not_No [of "occurrences t"]
  by (auto simp: metricCells_def)

lemma minusOnes_not_No: "Some ''No'' \<notin> set minusOnes"
  by (simp add: minusOnes_def)

lemma runLabels_not_No: "Some ''No'' \<notin> set (runLabels n)"
  by (simp add: runLabels_def)

section \<open>One step of the merge\<close>

lemma mergeTask_None:
  assumes "map_of tm (task_key t) = None"
  shows "mergeTask rc t (rep, tm, upd) =
     (rep @ [fixedCells t @ concat (replicate (nat rc) minusOnes) @ metricCells t],
      AList.update (task_key t) (length rep) tm, insert (task_key t) upd)"
  using assms by (simp add: push_cells_def Let_def)

lemma mergeTask_Some:
  assumes "map_of tm (task_key t) = Some i"
  shows "mergeTask rc t (rep, tm, upd) =
     (rep[i := (if blockingTime t > 0 then set_cell (rep ! i) 3 ''Yes'' else rep ! i)
               @ metricCells t],
      tm, insert (task_key t) upd)"
  using assms by (cases "i < length rep") (simp_all add: push_cells_def Let_def list_update_beyond)

declare mergeTask.simps [simp del]

lemma mergeTask_grows: "rep_grows (fst st) (fst (mergeTask rc t st))"
proof -
  obtain rep tm upd where st: "st = (rep, tm, upd)" by (cases st) auto
  show ?thesis
  proof (cases "map_of tm (task_key t)")
    case None
    then show ?thesis by (simp add: st mergeTask_None rep_grows_snoc)
  next
    case (Some i)
    have "row_grows (rep ! i)
        ((if blockingTime t > 0 then set_cell (rep ! i) 3 ''Yes'' else rep ! i) @ metricCells t)"
      using row_grows_trans [OF row_grows_set_cell row_grows_append [OF metricCells_not_No]]
        row_grows_append [OF metricCells_not_No]
      by simp
    then show ?thesis using Some by (simp add: st mergeTask_Some rep_grows_update)
  qed
qed

lemma fold_mergeTask_grows: "rep_grows (fst st) (fst (fold (mergeTask rc) tasks st))"
proof (induction tasks arbitrary: st)
  case Nil
  then show ?case by (simp add: rep_grows_refl)
next
  case (Cons t tasks)
  show ?case
    using rep_grows_trans [OF mergeTask_grows [of st rc t] Cons [of "mergeTask rc t st"]]
    by simp
qed

lemma fillAbsent_grows: "rep_grows rep (fillAbsent upd e rep)"
  by (simp add: fillAbsent_def push_cells_def rep_grows_refl rep_grows_update
      row_grows_append minusOnes_not_No)

lemma fillAbsent_length: "length (fillAbsent upd e rep) = length rep"
  by (simp add: fillAbsent_def push_cells_def)

lemma fold_fillAbsent_grows: "rep_grows rep (fold (fillAbsent upd) tm rep)"
proof (induction tm arbitrary: rep)
  case Nil
  then show ?case by (simp add: rep_grows_refl)
next
  case (Cons e tm)
  show ?case
    using rep_grows_trans [OF fillAbsent_grows [of rep upd e] Cons [of "fillAbsent upd e rep"]]
    by simp
qed

lemma fold_fillAbsent_length: "length (fold (fillAbsent upd) tm rep) = length rep"
  by (induction tm arbitrary: rep) (simp_all add: fillAbsent_length)

text \<open>The merge into a report that has a header, unfolded.\<close>

lemma updateReport_merge:
  assumes "r \<noteq> []"
  shows "updateReport r tasks =
     fold (fillAbsent (snd (snd (mergeTasks r tasks)))) (fst (snd (mergeTasks r tasks)))
       (fst (mergeTasks r tasks))"
  using assms by (simp add: updateReport_def split: prod.splits)

lemma withRunHeader_grows:
  assumes "r \<noteq> []"
  shows "rep_grows r (withRunHeader r)"
proof -
  have "hd r = r ! 0" using assms by (simp add: hd_conv_nth)
  then show ?thesis
    unfolding withRunHeader_def
    by (intro rep_grows_update) (simp add: row_grows_append runLabels_not_No)
qed

lemma mergeTasks_grows:
  assumes "r \<noteq> []"
  shows "rep_grows r (fst (mergeTasks r tasks))"
proof -
  have "rep_grows (withRunHeader r) (fst (mergeTasks r tasks))"
    using fold_mergeTask_grows
      [of "(withRunHeader r, buildTaskMap (withRunHeader r), {})" "runCount r" tasks]
    by (simp add: mergeTasks_def)
  then show ?thesis using rep_grows_trans [OF withRunHeader_grows [OF assms]] by blast
qed

lemma updateReport_grows:
  assumes "r \<noteq> []"
  shows "rep_grows r (updateReport r tasks)"
  using rep_grows_trans [OF mergeTasks_grows [OF assms] fold_fillAbsent_grows]
  by (simp add: updateReport_merge [OF assms])

section \<open>The task map\<close>

text \<open>After the rows \<open>1, \<dots>, n - 1\<close> have been entered, a key leads to the last of
  these rows that has it.\<close>

lemma upt_from_1_Suc: "1 \<le> n \<Longrightarrow> [1 ..< Suc n] = [1 ..< n] @ [n]"
  by simp

lemma taskMap_step:
  assumes "1 \<le> n"
  shows "map_of (fold (\<lambda>i m. AList.update (row_key (rep ! i)) i m) [1 ..< Suc n] []) =
    (map_of (fold (\<lambda>i m. AList.update (row_key (rep ! i)) i m) [1 ..< n] []))
      (row_key (rep ! n) \<mapsto> n)"
proof -
  have "[1 ..< Suc n] = [1 ..< n] @ [n]" using assms by simp
  then show ?thesis by (simp only: fold_append o_apply fold.simps id_apply update_conv')
qed

lemma taskMap_upto:
  "map_of (fold (\<lambda>i m. AList.update (row_key (rep ! i)) i m) [1 ..< n] []) k = Some i
   \<longleftrightarrow> 1 \<le> i \<and> i < n \<and> row_key (rep ! i) = k
        \<and> (\<forall>j. i < j \<and> j < n \<longrightarrow> row_key (rep ! j) \<noteq> k)"
proof (induction n)
  case 0
  then show ?case by simp
next
  case (Suc n)
  show ?case
  proof (cases "1 \<le> n")
    case False
    then have "n = 0" by simp
    then show ?thesis by simp
  next
    case True
    note step = taskMap_step [OF True, of rep]
    show ?thesis
    proof (cases "row_key (rep ! n) = k")
      case same: True
      have "(1 \<le> i \<and> i < Suc n \<and> row_key (rep ! i) = k
            \<and> (\<forall>j. i < j \<and> j < Suc n \<longrightarrow> row_key (rep ! j) \<noteq> k)) \<longleftrightarrow> i = n"
      proof
        assume h: "1 \<le> i \<and> i < Suc n \<and> row_key (rep ! i) = k
            \<and> (\<forall>j. i < j \<and> j < Suc n \<longrightarrow> row_key (rep ! j) \<noteq> k)"
        show "i = n"
        proof (rule ccontr)
          assume "i \<noteq> n"
          then have "i < n \<and> n < Suc n" using h by simp
          then have "row_key (rep ! n) \<noteq> k" using h by blast
          then show False using same by simp
        qed
      next
        assume "i = n"
        then show "1 \<le> i \<and> i < Suc n \<and> row_key (rep ! i) = k
            \<and> (\<forall>j. i < j \<and> j < Suc n \<longrightarrow> row_key (rep ! j) \<noteq> k)"
          using True same by auto
      qed
      moreover have "map_of (fold (\<lambda>i m. AList.update (row_key (rep ! i)) i m) [1 ..< Suc n] []) k
          = Some i \<longleftrightarrow> i = n"
        unfolding step using same by auto
      ultimately show ?thesis by blast
    next
      case other: False
      have "(1 \<le> i \<and> i < Suc n \<and> row_key (rep ! i) = k
            \<and> (\<forall>j. i < j \<and> j < Suc n \<longrightarrow> row_key (rep ! j) \<noteq> k))
          \<longleftrightarrow> (1 \<le> i \<and> i < n \<and> row_key (rep ! i) = k
            \<and> (\<forall>j. i < j \<and> j < n \<longrightarrow> row_key (rep ! j) \<noteq> k))"
        using other by (metis less_Suc_eq)
      moreover have "map_of (fold (\<lambda>i m. AList.update (row_key (rep ! i)) i m) [1 ..< Suc n] []) k
          = map_of (fold (\<lambda>i m. AList.update (row_key (rep ! i)) i m) [1 ..< n] []) k"
        unfolding step using other by simp
      ultimately show ?thesis using Suc by simp
    qed
  qed
qed

lemma buildTaskMap_Some:
  "map_of (buildTaskMap rep) k = Some i
   \<longleftrightarrow> 1 \<le> i \<and> i < length rep \<and> row_key (rep ! i) = k
        \<and> (\<forall>j. i < j \<and> j < length rep \<longrightarrow> row_key (rep ! j) \<noteq> k)"
  unfolding buildTaskMap_def by (rule taskMap_upto)

lemma distinct_fold_update:
  "distinct (map fst m) \<Longrightarrow> distinct (map fst (fold (\<lambda>i m. AList.update (f i) i m) is m))"
  by (induction "is" arbitrary: m) (simp_all add: distinct_update)

lemma buildTaskMap_distinct: "distinct (map fst (buildTaskMap rep))"
  unfolding buildTaskMap_def by (rule distinct_fold_update) simp

text \<open>Every data row's key is in the map.\<close>

lemma buildTaskMap_covers:
  assumes "1 \<le> i" "i < length rep"
  shows "map_of (buildTaskMap rep) (row_key (rep ! i)) \<noteq> None"
proof -
  define S where "S = {j. i \<le> j \<and> j < length rep \<and> row_key (rep ! j) = row_key (rep ! i)}"
  have fin: "finite S" unfolding S_def by simp
  have ne: "S \<noteq> {}" using assms unfolding S_def by auto
  define l where "l = Max S"
  have lS: "l \<in> S" unfolding l_def using fin ne by (rule Max_in)
  have "\<forall>j. l < j \<and> j < length rep \<longrightarrow> row_key (rep ! j) \<noteq> row_key (rep ! i)"
  proof (intro allI impI notI)
    fix j assume j: "l < j \<and> j < length rep" and eq: "row_key (rep ! j) = row_key (rep ! i)"
    have "j \<in> S" using j eq lS unfolding S_def by auto
    then have "j \<le> l" unfolding l_def using fin by simp
    with j show False by simp
  qed
  then have "map_of (buildTaskMap rep) (row_key (rep ! i)) = Some l"
    using lS assms unfolding S_def by (simp add: buildTaskMap_Some)
  then show ?thesis by simp
qed

section \<open>The indices in the task map\<close>

text \<open>A task map is sound for a report when its keys are distinct and it leads to data
  rows of the report only.\<close>

lemma mergeTask_sound:
  assumes "mergeTask rc t (rep, tm, upd) = (rep', tm', upd')"
    and "distinct (map fst tm)"
    and "\<forall>k i. map_of tm k = Some i \<longrightarrow> 1 \<le> i \<and> i < length rep"
    and "rep \<noteq> []"
  shows "distinct (map fst tm')"
    and "\<And>k i. map_of tm' k = Some i \<Longrightarrow> 1 \<le> i \<and> i < length rep'"
    and "rep' \<noteq> []" and "rep' ! 0 = rep ! 0" and "upd' = insert (task_key t) upd"
    and "length rep \<le> length rep'"
    and "\<And>k i. map_of tm k = Some i \<Longrightarrow> map_of tm' k = Some i"
proof -
  have pos: "1 \<le> length rep" using assms(4) by (cases rep) auto
  have all: "distinct (map fst tm') \<and> (\<forall>k i. map_of tm' k = Some i \<longrightarrow> 1 \<le> i \<and> i < length rep')
         \<and> rep' \<noteq> [] \<and> rep' ! 0 = rep ! 0 \<and> upd' = insert (task_key t) upd
         \<and> length rep \<le> length rep'"
  proof (cases "map_of tm (task_key t)")
    case None
    then have eq: "rep' = rep @ [fixedCells t @ concat (replicate (nat rc) minusOnes) @ metricCells t]"
      "tm' = AList.update (task_key t) (length rep) tm" "upd' = insert (task_key t) upd"
      using assms(1) by (simp_all add: mergeTask_None)
    have "1 \<le> i \<and> i < length rep'" if "map_of tm' k = Some i" for k i
    proof (cases "k = task_key t")
      case True
      then have "i = length rep" using that eq(2) by (simp add: update_conv')
      then show ?thesis using pos eq(1) by simp
    next
      case False
      then have "map_of tm k = Some i" using that eq(2) by (simp add: update_conv')
      then have "1 \<le> i \<and> i < length rep" using assms(3) by blast
      then show ?thesis using eq(1) by simp
    qed
    moreover have "rep' ! 0 = rep ! 0" using assms(4) eq(1) by (simp add: nth_append)
    ultimately show ?thesis using assms(2) eq by (simp add: distinct_update)
  next
    case (Some i)
    then have eq: "rep' = rep[i := (if blockingTime t > 0 then set_cell (rep ! i) 3 ''Yes''
               else rep ! i) @ metricCells t]" "tm' = tm" "upd' = insert (task_key t) upd"
      using assms(1) by (simp_all add: mergeTask_Some)
    have "1 \<le> i" using Some assms(3) by blast
    then have "rep' ! 0 = rep ! 0" using eq(1) by simp
    moreover have "length rep' = length rep" using eq(1) by simp
    ultimately show ?thesis using assms(2,3,4) eq(2,3) by auto
  qed
  show "distinct (map fst tm')" using all by simp
  show "\<And>k i. map_of tm' k = Some i \<Longrightarrow> 1 \<le> i \<and> i < length rep'" using all by blast
  show "rep' \<noteq> []" using all by simp
  show "rep' ! 0 = rep ! 0" using all by simp
  show "upd' = insert (task_key t) upd" using all by simp
  show "length rep \<le> length rep'" using all by simp
  show "map_of tm' k = Some i" if "map_of tm k = Some i" for k i
  proof (cases "map_of tm (task_key t)")
    case None
    then have "tm' = AList.update (task_key t) (length rep) tm"
      using assms(1) by (simp add: mergeTask_None)
    moreover have "k \<noteq> task_key t" using None that by auto
    ultimately show ?thesis using that by (simp add: update_conv')
  next
    case (Some j)
    then have "tm' = tm" using assms(1) by (simp add: mergeTask_Some)
    then show ?thesis using that by simp
  qed
qed


lemma fold_mergeTask_sound:
  assumes "fold (mergeTask rc) tasks (rep, tm, upd) = (rep', tm', upd')"
    and "distinct (map fst tm)"
    and "\<forall>k i. map_of tm k = Some i \<longrightarrow> 1 \<le> i \<and> i < length rep"
    and "rep \<noteq> []"
  shows "distinct (map fst tm') \<and> (\<forall>k i. map_of tm' k = Some i \<longrightarrow> 1 \<le> i \<and> i < length rep')
         \<and> rep' \<noteq> [] \<and> rep' ! 0 = rep ! 0 \<and> upd' = task_key ` set tasks \<union> upd
         \<and> (\<forall>k i. map_of tm k = Some i \<longrightarrow> map_of tm' k = Some i)"
  using assms
proof (induction tasks arbitrary: rep tm upd)
  case Nil
  then show ?case by auto
next
  case (Cons t tasks)
  obtain rep1 tm1 upd1 where step: "mergeTask rc t (rep, tm, upd) = (rep1, tm1, upd1)"
    by (cases "mergeTask rc t (rep, tm, upd)") auto
  note s = mergeTask_sound [OF step Cons.prems(2) Cons.prems(3) Cons.prems(4)]
  have s2: "\<forall>k i. map_of tm1 k = Some i \<longrightarrow> 1 \<le> i \<and> i < length rep1"
    using s(2) by blast
  have rest: "fold (mergeTask rc) tasks (rep1, tm1, upd1) = (rep', tm', upd')"
    using Cons.prems(1) step by simp
  have ih: "distinct (map fst tm') \<and> (\<forall>k i. map_of tm' k = Some i \<longrightarrow> 1 \<le> i \<and> i < length rep')
         \<and> rep' \<noteq> [] \<and> rep' ! 0 = rep1 ! 0 \<and> upd' = task_key ` set tasks \<union> upd1
         \<and> (\<forall>k i. map_of tm1 k = Some i \<longrightarrow> map_of tm' k = Some i)"
    using Cons.IH [OF rest s(1) s2 s(3)] by blast
  show ?case using ih s(4) s(5) s(7) by auto
qed

text \<open>The state after the tasks of a run have been merged.\<close>

lemma mergeTasks_sound:
  assumes "r \<noteq> []" and "mergeTasks r tasks = (rep', tm', upd')"
  shows "distinct (map fst tm')"
    and "\<And>k i. map_of tm' k = Some i \<Longrightarrow> 1 \<le> i \<and> i < length rep'"
    and "rep' ! 0 = hd r @ runLabels (runCount r + 1)"
    and "upd' = task_key ` set tasks"
    and "\<And>k i. map_of (buildTaskMap (withRunHeader r)) k = Some i \<Longrightarrow> map_of tm' k = Some i"
proof -
  have ne: "withRunHeader r \<noteq> []" using assms(1) by (simp add: withRunHeader_def)
  have f: "fold (mergeTask (runCount r)) tasks
      (withRunHeader r, buildTaskMap (withRunHeader r), {}) = (rep', tm', upd')"
    using assms(2) by (simp add: mergeTasks_def)
  have rng: "\<forall>k i. map_of (buildTaskMap (withRunHeader r)) k = Some i
      \<longrightarrow> 1 \<le> i \<and> i < length (withRunHeader r)"
    by (simp add: buildTaskMap_Some)
  note s = fold_mergeTask_sound [OF f buildTaskMap_distinct rng ne]
  have h: "withRunHeader r ! 0 = hd r @ runLabels (runCount r + 1)"
    using assms(1) by (simp add: withRunHeader_def)
  show "distinct (map fst tm')" using s by simp
  show "\<And>k i. map_of tm' k = Some i \<Longrightarrow> 1 \<le> i \<and> i < length rep'" using s by blast
  show "rep' ! 0 = hd r @ runLabels (runCount r + 1)" using s h by simp
  show "upd' = task_key ` set tasks" using s by simp
  show "\<And>k i. map_of (buildTaskMap (withRunHeader r)) k = Some i \<Longrightarrow> map_of tm' k = Some i"
    using s by blast
qed

text \<open>Every index that the merge pushes cells on is the index of a data row.\<close>

lemma taskMap_in_range:
  assumes "r \<noteq> []" and "mergeTasks r tasks = (rep', tm', upd')" and "e \<in> set tm'"
  shows "1 \<le> snd e \<and> snd e < length rep'"
proof -
  have "map_of tm' (fst e) = Some (snd e)"
    using mergeTasks_sound(1) [OF assms(1,2)] assms(3) by simp
  then show ?thesis by (rule mergeTasks_sound(2) [OF assms(1,2)])
qed

lemma fold_fillAbsent_other:
  assumes "\<forall>e\<in>set tm. snd e \<noteq> i"
  shows "fold (fillAbsent upd) tm rep ! i = rep ! i"
  using assms
proof (induction tm arbitrary: rep)
  case Nil
  then show ?case by simp
next
  case (Cons e tm)
  have "fillAbsent upd e rep ! i = rep ! i"
    using Cons.prems by (simp add: fillAbsent_def push_cells_def)
  then show ?case using Cons by simp
qed

text \<open>The header row of a merge: the old header and the three labels of the run.\<close>

lemma updateReport_header:
  assumes "r \<noteq> []"
  shows "updateReport r tasks ! 0 = hd r @ runLabels (runCount r + 1)"
proof -
  obtain rep' tm' upd' where m: "mergeTasks r tasks = (rep', tm', upd')"
    by (cases "mergeTasks r tasks") auto
  have "\<forall>e\<in>set tm'. snd e \<noteq> 0"
    using taskMap_in_range [OF assms m] by fastforce
  then have "fold (fillAbsent upd') tm' rep' ! 0 = rep' ! 0" by (rule fold_fillAbsent_other)
  then show ?thesis
    using mergeTasks_sound(3) [OF assms m] by (simp add: updateReport_merge [OF assms] m)
qed

section \<open>What a merge leaves as it is\<close>

text \<open>
  Claim C10. On a report that has a header, \<open>updateReport\<close> keeps every row in its
  place and only makes rows longer and the report longer. The header gets the three
  labels of the run and nothing else. In a data row, every cell that was there keeps
  its value, except that the cell at index 3 (Has Long Tasks) may have become
  \<^verbatim>\<open>Yes\<close>.
\<close>

theorem updateReport_frame:
  assumes "existingReport \<noteq> []"
  shows "length existingReport \<le> length (updateReport existingReport tasks)
    \<and> updateReport existingReport tasks ! 0 =
        hd existingReport @ runLabels (runCount existingReport + 1)
    \<and> (\<forall>i<length existingReport.
          length (existingReport ! i) \<le> length (updateReport existingReport tasks ! i)
          \<and> (\<forall>j<length (existingReport ! i).
                j \<noteq> 3 \<longrightarrow>
                updateReport existingReport tasks ! i ! j = existingReport ! i ! j)
          \<and> (3 < length (existingReport ! i) \<longrightarrow>
                updateReport existingReport tasks ! i ! 3 = existingReport ! i ! 3
                \<or> (1 \<le> i \<and> updateReport existingReport tasks ! i ! 3 = Some ''Yes'')))"
proof -
  note g = updateReport_grows [OF assms, of tasks]
  note h = updateReport_header [OF assms, of tasks]
  have row: "length (existingReport ! i) \<le> length (updateReport existingReport tasks ! i)
          \<and> (\<forall>j<length (existingReport ! i).
                j \<noteq> 3 \<longrightarrow>
                updateReport existingReport tasks ! i ! j = existingReport ! i ! j)
          \<and> (3 < length (existingReport ! i) \<longrightarrow>
                updateReport existingReport tasks ! i ! 3 = existingReport ! i ! 3
                \<or> (1 \<le> i \<and> updateReport existingReport tasks ! i ! 3 = Some ''Yes''))"
    if i: "i < length existingReport" for i
  proof -
    have rg: "row_grows (existingReport ! i) (updateReport existingReport tasks ! i)"
      using g i by (simp add: rep_grows_def)
    show ?thesis
    proof (cases "i = 0")
      case True
      have "hd existingReport = existingReport ! 0" using assms by (simp add: hd_conv_nth)
      then have "updateReport existingReport tasks ! 0 ! 3 = existingReport ! 0 ! 3"
        if "3 < length (existingReport ! 0)"
        using h that by (simp add: nth_append)
      then show ?thesis using rg True by (simp add: row_grows_def)
    next
      case False
      then show ?thesis using rg by (auto simp: row_grows_def)
    qed
  qed
  show ?thesis using g h row by (simp add: rep_grows_def)
qed

theorem updateReport_frame_witness:
  "firstReport \<noteq> []
   \<and> updateReport firstReport [layoutTask] ! 1 ! 0 = Some ''EvaluateScript''
   \<and> updateReport firstReport [layoutTask] ! 1 ! 3 = Some ''Yes''
   \<and> updateReport firstReport [layoutTask] ! 1 ! 5 = Some ''150.00''"
proof -
  have ne: "firstReport \<noteq> []" by (simp add: firstReport_def)
  have l: "1 < length firstReport" "length (firstReport ! 1) = 7"
    by (simp_all add: firstReport_def)
  have c: "firstReport ! 1 ! 0 = Some ''EvaluateScript''" "firstReport ! 1 ! 3 = Some ''Yes''"
    "firstReport ! 1 ! 5 = Some ''150.00''"
    by (simp_all add: firstReport_def)
  show ?thesis using ne l c updateReport_frame [OF ne, of "[layoutTask]"] by auto
qed

section \<open>The Has Long Tasks cell\<close>

lemma mergeTask_keeps:
  assumes "map_of tm k = Some i"
  shows "map_of (fst (snd (mergeTask rc t (rep, tm, upd)))) k = Some i"
proof (cases "map_of tm (task_key t)")
  case None
  then have "k \<noteq> task_key t" using assms by auto
  then show ?thesis using None assms by (simp add: mergeTask_None update_conv')
next
  case (Some j)
  then show ?thesis using assms by (simp add: mergeTask_Some)
qed

lemma grows_yes:
  assumes "rep_grows rep rep'" "i < length rep" "get_cell (rep ! i) 3 = Some ''Yes''"
  shows "get_cell (rep' ! i) 3 = Some ''Yes''"
proof -
  have "row_grows (rep ! i) (rep' ! i)" using assms(1,2) by (simp add: rep_grows_def)
  then show ?thesis using assms(3) by (rule row_grows_yes)
qed

lemma set_cell_yes: "get_cell (set_cell r 3 ''Yes'' @ cells) 3 = Some ''Yes''"
  by (auto simp: get_cell_def set_cell_def nth_append)

text \<open>A task that blocked and whose key the map leads to row \<open>i\<close> leaves \<^verbatim>\<open>Yes\<close>
  there.\<close>

lemma fold_mergeTask_sets_yes:
  assumes "t \<in> set tasks" "0 < blockingTime t" "map_of tm (task_key t) = Some i"
    "i < length rep"
  shows "get_cell (fst (fold (mergeTask rc) tasks (rep, tm, upd)) ! i) 3 = Some ''Yes''"
  using assms
proof (induction tasks arbitrary: rep tm upd)
  case Nil
  then show ?case by simp
next
  case (Cons t' tasks)
  obtain rep1 tm1 upd1 where step: "mergeTask rc t' (rep, tm, upd) = (rep1, tm1, upd1)"
    by (cases "mergeTask rc t' (rep, tm, upd)") auto
  have g1: "rep_grows rep rep1" using mergeTask_grows [of "(rep, tm, upd)" rc t'] step by simp
  then have len: "i < length rep1" using Cons.prems(4) by (simp add: rep_grows_def)
  have keep: "map_of tm1 (task_key t) = Some i"
    using mergeTask_keeps [OF Cons.prems(3), of rc t' rep upd] step by simp
  show ?case
  proof (cases "t' = t")
    case True
    have "rep1 = rep[i := set_cell (rep ! i) 3 ''Yes'' @ metricCells t]"
      using step True Cons.prems(2,3) by (simp add: mergeTask_Some)
    then have "get_cell (rep1 ! i) 3 = Some ''Yes''"
      using Cons.prems(4) by (simp add: set_cell_yes)
    then have "get_cell (fst (fold (mergeTask rc) tasks (rep1, tm1, upd1)) ! i) 3 = Some ''Yes''"
      using grows_yes [OF fold_mergeTask_grows [of "(rep1, tm1, upd1)" rc tasks]] len by simp
    then show ?thesis using step by simp
  next
    case False
    then have "t \<in> set tasks" using Cons.prems(1) by simp
    then show ?thesis using Cons.IH [OF _ Cons.prems(2) keep len] step by simp
  qed
qed

lemma withRunHeader_rows:
  "length (withRunHeader r) = length r" "1 \<le> i \<Longrightarrow> withRunHeader r ! i = r ! i"
  by (simp_all add: withRunHeader_def)

text \<open>
  Claim C3, as stated, fails in its second part: the task map holds one row for a key,
  the last one, so of two rows with the same key only the second is set to \<^verbatim>\<open>Yes\<close>
  by a task of that key with a positive blocking time. The first row of the quiet twin
  report is left as it is, with \<^verbatim>\<open>No\<close>.
\<close>

theorem twin_row_stays_no:
  "row_key (quietTwinReport ! 1) = task_key scriptTask
   \<and> 0 < blockingTime scriptTask
   \<and> get_cell (quietTwinReport ! 1) 3 = Some ''No''
   \<and> updateReport quietTwinReport [scriptTask] ! 1 = quietTwinReport ! 1
   \<and> get_cell (updateReport quietTwinReport [scriptTask] ! 2) 3 = Some ''Yes''"
proof -
  have k: "task_key scriptTask = ''EvaluateScript|''"
    by (simp add: task_key_def scriptTask_def)
  have k1: "row_key (quietTwinReport ! 1) = ''EvaluateScript|''"
    by (simp add: row_key_def get_cell_def cell_text_def quietTwinReport_def)
  have b: "0 < blockingTime scriptTask" by (simp add: scriptTask_def)
  have n: "get_cell (quietTwinReport ! 1) 3 = Some ''No''"
    by (simp add: quietTwinReport_def get_cell_def)
  have tm: "buildTaskMap (withRunHeader quietTwinReport) = [(''EvaluateScript|'', 2)]"
    by (simp add: buildTaskMap_def withRunHeader_def quietTwinReport_def row_key_def
        get_cell_def cell_text_def)
  have m: "mergeTasks quietTwinReport [scriptTask] =
      ((withRunHeader quietTwinReport)
         [2 := set_cell (withRunHeader quietTwinReport ! 2) 3 ''Yes'' @ metricCells scriptTask],
       [(''EvaluateScript|'', 2)], {''EvaluateScript|''})"
    using b by (simp add: mergeTasks_def tm mergeTask_Some k)
  have r1: "updateReport quietTwinReport [scriptTask] ! 1 = quietTwinReport ! 1"
    by (simp add: updateReport_def m fillAbsent_def)
      (simp add: quietTwinReport_def withRunHeader_def)
  have r2: "get_cell (updateReport quietTwinReport [scriptTask] ! 2) 3 = Some ''Yes''"
    by (simp add: updateReport_def m fillAbsent_def)
      (simp add: quietTwinReport_def withRunHeader_def set_cell_yes)
  show ?thesis using k k1 b n r1 r2 by simp
qed

text \<open>
  Claim C3, amended. The Has Long Tasks cell only moves towards \<^verbatim>\<open>Yes\<close>: a row of the
  existing report that has \<^verbatim>\<open>Yes\<close> there has it after the merge, whatever the tasks;
  no row of the existing report has \<^verbatim>\<open>No\<close> there after the merge unless it had
  before; and when a task of the run has a positive blocking time, the existing data
  row that its key leads to, which is the last data row with that key, has \<^verbatim>\<open>Yes\<close>
  after the merge.
\<close>

theorem hasLongTasks_monotonic:
  "(\<forall>i<length existingReport.
      get_cell (existingReport ! i) 3 = Some ''Yes'' \<longrightarrow>
      get_cell (updateReport existingReport tasks ! i) 3 = Some ''Yes'')
   \<and> (\<forall>i<length existingReport.
      get_cell (updateReport existingReport tasks ! i) 3 = Some ''No'' \<longrightarrow>
      get_cell (existingReport ! i) 3 = Some ''No'')
   \<and> (\<forall>t\<in>set tasks. \<forall>i.
      0 < blockingTime t \<and> 1 \<le> i \<and> i < length existingReport
      \<and> row_key (existingReport ! i) = task_key t
      \<and> (\<forall>j. i < j \<and> j < length existingReport \<longrightarrow> row_key (existingReport ! j) \<noteq> task_key t)
      \<longrightarrow> get_cell (updateReport existingReport tasks ! i) 3 = Some ''Yes'')"
proof (cases "existingReport = []")
  case True
  then show ?thesis by simp
next
  case ne: False
  note g = updateReport_grows [OF ne, of tasks]
  have a: "get_cell (updateReport existingReport tasks ! i) 3 = Some ''Yes''"
    if "i < length existingReport" "get_cell (existingReport ! i) 3 = Some ''Yes''" for i
    using grows_yes [OF g that] .
  have b: "get_cell (existingReport ! i) 3 = Some ''No''"
    if "i < length existingReport" "get_cell (updateReport existingReport tasks ! i) 3 = Some ''No''"
    for i
    using g that by (simp add: rep_grows_def row_grows_def)
  have c: "get_cell (updateReport existingReport tasks ! i) 3 = Some ''Yes''"
    if t: "t \<in> set tasks" "0 < blockingTime t"
      and i: "1 \<le> i" "i < length existingReport" "row_key (existingReport ! i) = task_key t"
      and last: "\<forall>j. i < j \<and> j < length existingReport \<longrightarrow> row_key (existingReport ! j) \<noteq> task_key t"
    for t i
  proof -
    have "\<forall>j. i < j \<and> j < length (withRunHeader existingReport)
        \<longrightarrow> row_key (withRunHeader existingReport ! j) \<noteq> task_key t"
      using last i(1) by (simp add: withRunHeader_rows)
    then have m: "map_of (buildTaskMap (withRunHeader existingReport)) (task_key t) = Some i"
      using i by (simp add: buildTaskMap_Some withRunHeader_rows)
    have "get_cell (fst (mergeTasks existingReport tasks) ! i) 3 = Some ''Yes''"
      unfolding mergeTasks_def
      using fold_mergeTask_sets_yes [OF t m] i(2) by (simp add: withRunHeader_rows)
    moreover have "i < length (fst (mergeTasks existingReport tasks))"
      using mergeTasks_grows [OF ne, of tasks] i(2) by (simp add: rep_grows_def)
    ultimately show ?thesis
      using grows_yes [OF fold_fillAbsent_grows] by (simp add: updateReport_merge [OF ne])
  qed
  show ?thesis using a b c by blast
qed

theorem hasLongTasks_monotonic_witness:
  "get_cell (firstReport ! 1) 3 = Some ''Yes''
   \<and> blockingTime quickScriptTask = 0
   \<and> get_cell (updateReport firstReport [quickScriptTask] ! 1) 3 = Some ''Yes''
   \<and> get_cell (quietReport ! 1) 3 = Some ''No''
   \<and> 0 < blockingTime scriptTask
   \<and> get_cell (updateReport quietReport [scriptTask] ! 1) 3 = Some ''Yes''"
proof -
  have y: "get_cell (firstReport ! 1) 3 = Some ''Yes''"
    by (simp add: firstReport_def get_cell_def)
  have l: "1 < length firstReport" by (simp add: firstReport_def)
  have z: "blockingTime quickScriptTask = 0" by (simp add: quickScriptTask_def)
  have 1: "get_cell (updateReport firstReport [quickScriptTask] ! 1) 3 = Some ''Yes''"
    using hasLongTasks_monotonic [of firstReport "[quickScriptTask]"] y l by blast
  have n: "get_cell (quietReport ! 1) 3 = Some ''No''"
    by (simp add: quietReport_def get_cell_def)
  have k: "row_key (quietReport ! 1) = task_key scriptTask"
    by (simp add: quietReport_def scriptTask_def row_key_def task_key_def get_cell_def
        cell_text_def)
  have b: "0 < blockingTime scriptTask" by (simp add: scriptTask_def)
  have q: "1 < length quietReport" by (simp add: quietReport_def)
  have q': "\<forall>j. 1 < j \<and> j < length quietReport \<longrightarrow> row_key (quietReport ! j) \<noteq> task_key scriptTask"
    by (auto simp: quietReport_def)
  have "\<forall>t\<in>set [scriptTask]. \<forall>i.
      0 < blockingTime t \<and> 1 \<le> i \<and> i < length quietReport
      \<and> row_key (quietReport ! i) = task_key t
      \<and> (\<forall>j. i < j \<and> j < length quietReport \<longrightarrow> row_key (quietReport ! j) \<noteq> task_key t)
      \<longrightarrow> get_cell (updateReport quietReport [scriptTask] ! i) 3 = Some ''Yes''"
    using hasLongTasks_monotonic [of quietReport "[scriptTask]"] by blast
  then have 2: "get_cell (updateReport quietReport [scriptTask] ! 1) 3 = Some ''Yes''"
    using k b q q' by simp
  show ?thesis using y z 1 n b 2 by simp
qed

section \<open>Row identity\<close>

lemma row_key_pair: "row_key r = cell_text (fst (row_pair r)) @ ''|'' @ cell_text (snd (row_pair r))"
  by (simp add: row_key_def row_pair_def)

lemma new_row_pair:
  "row_pair (fixedCells t @ cells) = (Some (name t), Some (url t))"
  "row_key (fixedCells t @ cells) = task_key t"
  "2 \<le> length (fixedCells t @ cells)"
  by (simp_all add: row_pair_def row_key_def task_key_def fixedCells_def get_cell_def
      cell_text_def)

text \<open>Rows that only grow keep their pairs and keys.\<close>

lemma grows_same_pairs:
  assumes "rep_grows rep rep'" "length rep' = length rep"
    and "\<forall>i. 1 \<le> i \<and> i < length rep \<longrightarrow> 2 \<le> length (rep ! i)"
  shows "map row_pair (tl rep') = map row_pair (tl rep)"
    and "\<forall>i. 1 \<le> i \<and> i < length rep \<longrightarrow>
           2 \<le> length (rep' ! i) \<and> row_key (rep' ! i) = row_key (rep ! i)"
proof -
  have row: "row_grows (rep ! i) (rep' ! i)" if "i < length rep" for i
    using assms(1) that by (simp add: rep_grows_def)
  show k: "\<forall>i. 1 \<le> i \<and> i < length rep \<longrightarrow>
           2 \<le> length (rep' ! i) \<and> row_key (rep' ! i) = row_key (rep ! i)"
  proof (intro allI impI)
    fix i assume i: "1 \<le> i \<and> i < length rep"
    then have two: "2 \<le> length (rep ! i)" using assms(3) by blast
    have "length (rep ! i) \<le> length (rep' ! i)" using row i by (simp add: row_grows_def)
    then show "2 \<le> length (rep' ! i) \<and> row_key (rep' ! i) = row_key (rep ! i)"
      using row_grows_key(1) [OF row two] i two by simp
  qed
  show "map row_pair (tl rep') = map row_pair (tl rep)"
  proof (rule nth_equalityI)
    show "length (map row_pair (tl rep')) = length (map row_pair (tl rep))"
      using assms(2) by simp
  next
    fix i assume "i < length (map row_pair (tl rep'))"
    then have i: "Suc i < length rep" using assms(2) by simp
    then have two: "2 \<le> length (rep ! Suc i)" using assms(3) by simp
    have "row_pair (rep' ! Suc i) = row_pair (rep ! Suc i)"
      using row_grows_key(2) [OF row two] i by simp
    then show "map row_pair (tl rep') ! i = map row_pair (tl rep) ! i"
      using i assms(2) by (simp add: nth_tl)
  qed
qed

lemma mergeTask_keyed:
  assumes "keyed rep tm"
  shows "keyed (fst (mergeTask rc t (rep, tm, upd))) (fst (snd (mergeTask rc t (rep, tm, upd))))"
proof (cases "map_of tm (task_key t)")
  case None
  define new where "new = fixedCells t @ concat (replicate (nat rc) minusOnes) @ metricCells t"
  have eq: "mergeTask rc t (rep, tm, upd) =
      (rep @ [new], AList.update (task_key t) (length rep) tm, insert (task_key t) upd)"
    using None by (simp add: mergeTask_None new_def)
  have ne: "rep \<noteq> []" using assms by (simp add: keyed_def)
  have rows: "2 \<le> length ((rep @ [new]) ! i)
      \<and> map_of (AList.update (task_key t) (length rep) tm) (row_key ((rep @ [new]) ! i)) \<noteq> None"
    if "1 \<le> i \<and> i < length (rep @ [new])" for i
  proof (cases "i < length rep")
    case True
    then show ?thesis using assms that by (simp add: keyed_def nth_append update_conv')
  next
    case False
    then have "i = length rep" using that by simp
    then show ?thesis
      using new_row_pair(2,3) [of t "concat (replicate (nat rc) minusOnes) @ metricCells t"]
      by (simp add: new_def update_conv')
  qed
  have "row_pair new \<notin> set (map row_pair (tl rep))"
  proof
    assume "row_pair new \<in> set (map row_pair (tl rep))"
    then obtain r where r: "r \<in> set (tl rep)" "row_pair r = row_pair new" by auto
    then obtain j where j: "j < length (tl rep)" "tl rep ! j = r"
      by (auto simp: in_set_conv_nth)
    then have "rep ! Suc j = r" "Suc j < length rep" by (simp_all add: nth_tl)
    then have "map_of tm (row_key r) \<noteq> None" using assms by (auto simp: keyed_def)
    moreover have "row_key r = task_key t"
      using r(2) row_key_pair [of r] row_key_pair [of new] by (simp add: new_def new_row_pair)
    ultimately show False using None by simp
  qed
  then have "distinct (map row_pair (tl (rep @ [new])))"
    using assms ne by (simp add: keyed_def)
  then show ?thesis using rows ne unfolding eq keyed_def by simp
next
  case (Some i)
  define r' where "r' = (if blockingTime t > 0 then set_cell (rep ! i) 3 ''Yes'' else rep ! i)
      @ metricCells t"
  have eq: "mergeTask rc t (rep, tm, upd) = (rep[i := r'], tm, insert (task_key t) upd)"
    using Some by (simp add: mergeTask_Some r'_def)
  have g: "rep_grows rep (rep[i := r'])"
    using mergeTask_grows [of "(rep, tm, upd)" rc t] eq by simp
  have two: "\<forall>i. 1 \<le> i \<and> i < length rep \<longrightarrow> 2 \<le> length (rep ! i)"
    using assms by (simp add: keyed_def)
  note s = grows_same_pairs [OF g _ two]
  have "keyed (rep[i := r']) tm"
    unfolding keyed_def using assms s by (simp add: keyed_def)
  then show ?thesis by (simp add: eq)
qed

lemma fold_mergeTask_keyed:
  assumes "keyed (fst st) (fst (snd st))"
  shows "keyed (fst (fold (mergeTask rc) tasks st)) (fst (snd (fold (mergeTask rc) tasks st)))"
  using assms
proof (induction tasks arbitrary: st)
  case Nil
  then show ?case by simp
next
  case (Cons t tasks)
  obtain rep tm upd where st: "st = (rep, tm, upd)" by (cases st) auto
  have "keyed (fst (mergeTask rc t st)) (fst (snd (mergeTask rc t st)))"
    using mergeTask_keyed [of rep tm rc t upd] Cons.prems by (simp add: st)
  then show ?case using Cons.IH by simp
qed

lemma unique_rows_keyed:
  assumes "unique_rows r"
  shows "keyed (withRunHeader r) (buildTaskMap (withRunHeader r))"
proof -
  have ne: "r \<noteq> []" using assms by (simp add: unique_rows_def)
  have "tl (withRunHeader r) = tl r"
    using ne by (cases r) (simp_all add: withRunHeader_def)
  moreover have "2 \<le> length (withRunHeader r ! i)
      \<and> map_of (buildTaskMap (withRunHeader r)) (row_key (withRunHeader r ! i)) \<noteq> None"
    if "1 \<le> i \<and> i < length (withRunHeader r)" for i
    using that assms buildTaskMap_covers [of i "withRunHeader r"]
    by (simp add: withRunHeader_rows unique_rows_def)
  ultimately show ?thesis
    using assms ne unfolding keyed_def unique_rows_def by (simp add: withRunHeader_def)
qed

text \<open>A merge keeps the rows unique, whatever the tasks.\<close>

lemma updateReport_unique_rows:
  assumes "unique_rows r"
  shows "unique_rows (updateReport r tasks)"
proof -
  have ne: "r \<noteq> []" using assms by (simp add: unique_rows_def)
  define st where "st = mergeTasks r tasks"
  have k: "keyed (fst st) (fst (snd st))"
    unfolding st_def mergeTasks_def
    using fold_mergeTask_keyed [of "(withRunHeader r, buildTaskMap (withRunHeader r), {})"]
      unique_rows_keyed [OF assms]
    by simp
  have two: "\<forall>i. 1 \<le> i \<and> i < length (fst st) \<longrightarrow> 2 \<le> length (fst st ! i)"
    using k by (simp add: keyed_def)
  note s = grows_same_pairs [OF fold_fillAbsent_grows fold_fillAbsent_length two,
      of "snd (snd st)" "fst (snd st)"]
  have "fst st \<noteq> []" using k by (simp add: keyed_def)
  then have "fold (fillAbsent (snd (snd st))) (fst (snd st)) (fst st) \<noteq> []"
    using fold_fillAbsent_length [of "snd (snd st)" "fst (snd st)" "fst st"] by auto
  then have "unique_rows (fold (fillAbsent (snd (snd st))) (fst (snd st)) (fst st))"
    unfolding unique_rows_def using k s
    by (simp add: keyed_def fold_fillAbsent_length)
  then show ?thesis by (simp add: updateReport_merge [OF ne] st_def)
qed

lemma first_run_unique_rows:
  assumes "distinct (map task_pair tasks)"
  shows "unique_rows (updateReport [] tasks)"
proof -
  have "map row_pair (map (\<lambda>t. fixedCells t @ metricCells t) tasks)
      = map (\<lambda>t. (Some (name t), Some (url t))) tasks"
    by (simp add: new_row_pair)
  also have "\<dots> = map (\<lambda>p. (Some (fst p), Some (snd p))) (map task_pair tasks)"
    by (simp add: task_pair_def)
  finally have "distinct (map row_pair (map (\<lambda>t. fixedCells t @ metricCells t) tasks))"
    using assms by (simp add: distinct_map inj_on_def prod_eq_iff)
  moreover have "2 \<le> length ((firstHeader # map (\<lambda>t. fixedCells t @ metricCells t) tasks) ! i)"
    if "1 \<le> i \<and> i < length (firstHeader # map (\<lambda>t. fixedCells t @ metricCells t) tasks)"
    for i
  proof -
    from that have "\<exists>j. i = Suc j \<and> j < length tasks" by (cases i) simp_all
    then obtain j where j: "i = Suc j" "j < length tasks" by blast
    then show ?thesis by (simp add: fixedCells_def)
  qed
  ultimately show ?thesis
    by (simp add: unique_rows_def updateReport_def)
qed

lemma foldl_updateReport_unique_rows:
  assumes "unique_rows r"
  shows "unique_rows (foldl updateReport r tss)"
  using assms by (induction tss arbitrary: r) (simp_all add: updateReport_unique_rows)

section \<open>Sequential runs\<close>

text \<open>
  The merge into the empty report makes one row per task of the list, and relies on the
  list to hold no task twice; the merge into a report with a header looks every task up
  in the task map. So when the task list of the first run has no two tasks with the
  same (name, URL) pair, then after any number of runs, with any task lists in the
  later runs, no two data rows of the report have the same (Task Name, URL) pair.
\<close>

lemma runs_unique_rows_from_first:
  assumes "tss \<noteq> [] \<longrightarrow> distinct (map task_pair (hd tss))"
  shows "distinct (map row_pair (tl (runs tss)))"
proof (cases tss)
  case Nil
  then show ?thesis by (simp add: runs_def)
next
  case (Cons ts rest)
  then have "unique_rows (updateReport [] ts)"
    using assms by (simp add: first_run_unique_rows)
  then have "unique_rows (foldl updateReport (updateReport [] ts) rest)"
    by (rule foldl_updateReport_unique_rows)
  then show ?thesis using Cons by (simp add: runs_def unique_rows_def)
qed

section \<open>The aggregator\<close>

lemma set_update_subset: "set (AList.update k v al) \<subseteq> insert (k, v) (set al)"
  by (induction al) auto

lemma distinct_map_inner:
  "distinct (map (\<lambda>x. f (g x)) xs) \<Longrightarrow> distinct (map g xs)"
  by (induction xs) auto

text \<open>Every entry of the task map sits under the key of its task, and no key comes
  twice.\<close>

lemma processEvent_keys:
  assumes "distinct (map fst al)" "\<forall>e\<in>set al. fst e = task_key (snd e)"
  shows "distinct (map fst (processEvent ev al))
    \<and> (\<forall>e\<in>set (processEvent ev al). fst e = task_key (snd e))"
proof (cases "isPotentialTBTTask ev")
  case False
  then show ?thesis using assms by (simp add: processEvent_def)
next
  case True
  define k where "k = getEventKey ev @ ''|'' @ getEventUrl ev"
  obtain t' where eq: "processEvent ev al = AList.update k t' al" and key: "task_key t' = k"
  proof (cases "map_of al k")
    case None
    then show ?thesis
      using True that by (simp add: processEvent_def Let_def k_def task_key_def)
  next
    case (Some t0)
    then have "(k, t0) \<in> set al" by (rule map_of_SomeD)
    then have "task_key t0 = k" using assms(2) by fastforce
    then show ?thesis
      using True Some that by (simp add: processEvent_def Let_def k_def task_key_def)
  qed
  have "fst e = task_key (snd e)" if "e \<in> set (AList.update k t' al)" for e
    using that set_update_subset [of k t' al] assms(2) key by auto
  then show ?thesis using assms(1) eq by (simp add: distinct_update)
qed

lemma fold_processEvent_keys:
  assumes "distinct (map fst al)" "\<forall>e\<in>set al. fst e = task_key (snd e)"
  shows "distinct (map fst (fold processEvent evs al))
    \<and> (\<forall>e\<in>set (fold processEvent evs al). fst e = task_key (snd e))"
  using assms
proof (induction evs arbitrary: al)
  case Nil
  then show ?case by simp
next
  case (Cons ev evs)
  show ?case
    using Cons.IH [of "processEvent ev al"] processEvent_keys [OF Cons.prems, of ev] by simp
qed

text \<open>The tasks of one run have distinct keys, and so distinct (name, URL) pairs.\<close>

lemma aggregate_distinct:
  "distinct (map task_key (aggregate evs))" "distinct (map task_pair (aggregate evs))"
proof -
  have k: "distinct (map fst (fold processEvent evs []))
    \<and> (\<forall>e\<in>set (fold processEvent evs []). fst e = task_key (snd e))"
    by (rule fold_processEvent_keys) simp_all
  then have "map task_key (aggregate evs) = map fst (fold processEvent evs [])"
    by (simp add: aggregate_def)
  then show d: "distinct (map task_key (aggregate evs))" using k by simp
  have "task_key = (\<lambda>t. fst (task_pair t) @ ''|'' @ snd (task_pair t))"
    by (simp add: fun_eq_iff task_key_def task_pair_def)
  then have "distinct (map (\<lambda>t. fst (task_pair t) @ ''|'' @ snd (task_pair t)) (aggregate evs))"
    using d by metis
  then show "distinct (map task_pair (aggregate evs))"
    by (rule distinct_map_inner [of "\<lambda>p. fst p @ ''|'' @ snd p" task_pair])
qed

subsection \<open>What the aggregator computes\<close>

lemma processEvent_skip: "\<not> isPotentialTBTTask e \<Longrightarrow> processEvent e al = al"
  by (simp add: processEvent_def)

lemma processEvent_new:
  assumes "isPotentialTBTTask e" "map_of al (event_key e) = None"
  shows "processEvent e al =
    AList.update (event_key e)
      \<lparr>name = getEventKey e, url = getEventUrl e, blockingTime = calculateBlockingTime e,
       totalDuration = durationMs e, occurrences = 1, category = eventCategory e\<rparr> al"
  using assms
  by (simp add: processEvent_def Let_def event_key_def durationMs_def eventCategory_def)

lemma processEvent_old:
  assumes "isPotentialTBTTask e" "map_of al (event_key e) = Some t0"
  shows "processEvent e al =
    AList.update (event_key e)
      (t0\<lparr>blockingTime := blockingTime t0 + calculateBlockingTime e,
          totalDuration := totalDuration t0 + durationMs e,
          occurrences := occurrences t0 + 1\<rparr>) al"
  using assms
  by (simp add: processEvent_def Let_def event_key_def durationMs_def)

lemma processEvent_other:
  assumes "isPotentialTBTTask e" "k \<noteq> event_key e"
  shows "map_of (processEvent e al) k = map_of al k"
  using assms
  by (cases "map_of al (event_key e)")
    (simp_all add: processEvent_new processEvent_old update_conv')

text \<open>
  Under each key string, the map of the aggregator holds the task of the qualifying
  events with that key: the name, URL and category of the first, the sums of the
  blocking times and of the durations, and the number of the events.
\<close>

lemma aggregate_lookup:
  "map_of (fold processEvent evs []) k = taskOf (matching k evs)"
proof (induction evs rule: rev_induct)
  case Nil
  then show ?case by (simp add: taskOf_def matching_def)
next
  case (snoc e evs)
  show ?case
  proof (cases "isPotentialTBTTask e \<and> event_key e = k")
    case False
    then have m: "matching k (evs @ [e]) = matching k evs" by (auto simp: matching_def)
    have "map_of (processEvent e (fold processEvent evs [])) k
        = map_of (fold processEvent evs []) k"
      using False
      by (cases "isPotentialTBTTask e") (auto simp: processEvent_skip processEvent_other)
    then show ?thesis using snoc m by simp
  next
    case True
    then have m: "matching k (evs @ [e]) = matching k evs @ [e]" by (simp add: matching_def)
    show ?thesis
    proof (cases "matching k evs")
      case Nil
      then have "map_of (fold processEvent evs []) k = None" using snoc by (simp add: taskOf_def)
      then show ?thesis
        using True m Nil by (simp add: processEvent_new update_conv' taskOf_def)
    next
      case (Cons e0 es)
      then have "map_of (fold processEvent evs []) k = taskOf (e0 # es)" using snoc by simp
      then show ?thesis
        using True m Cons by (simp add: processEvent_old update_conv' taskOf_def)
    qed
  qed
qed

text \<open>The tasks of a run are the tasks under the keys of the map, one for each key
  string that a qualifying event has.\<close>

lemma aggregate_tasks:
  "set (aggregate evs) = {t. \<exists>k. taskOf (matching k evs) = Some t}"
  "task_key ` set (aggregate evs) = event_key ` {e \<in> set evs. isPotentialTBTTask e}"
proof -
  have d: "distinct (map fst (fold processEvent evs []))"
    using fold_processEvent_keys [of "[]" evs] by simp
  have mem: "(k, t) \<in> set (fold processEvent evs []) \<longleftrightarrow> taskOf (matching k evs) = Some t" for k t
    using d aggregate_lookup [of evs k] by (metis map_of_eq_Some_iff)
  show 1: "set (aggregate evs) = {t. \<exists>k. taskOf (matching k evs) = Some t}"
  proof -
    have "set (aggregate evs) = snd ` set (fold processEvent evs [])" by (simp add: aggregate_def)
    also have "\<dots> = {t. \<exists>k. (k, t) \<in> set (fold processEvent evs [])}" by force
    finally show ?thesis using mem by simp
  qed
  have key: "task_key t = k" if h: "taskOf (matching k evs) = Some t" for k t
  proof -
    obtain e es where es: "matching k evs = e # es"
      using h by (cases "matching k evs") (auto simp: taskOf_def)
    then have t: "name t = getEventKey e" "url t = getEventUrl e"
      using h by (auto simp: taskOf_def)
    have "e \<in> set (matching k evs)" using es by simp
    then have "event_key e = k" by (simp add: matching_def)
    then show ?thesis using t by (simp add: task_key_def event_key_def)
  qed
  show "task_key ` set (aggregate evs) = event_key ` {e \<in> set evs. isPotentialTBTTask e}"
  proof (intro set_eqI iffI)
    fix k assume "k \<in> task_key ` set (aggregate evs)"
    then obtain t k' where t: "taskOf (matching k' evs) = Some t" "k = task_key t"
      using 1 by auto
    then have k: "k' = k" using key by simp
    obtain e es where "matching k evs = e # es"
      using t(1) k by (cases "matching k evs") (auto simp: taskOf_def)
    then have "e \<in> set (matching k evs)" by simp
    then show "k \<in> event_key ` {e \<in> set evs. isPotentialTBTTask e}"
      by (auto simp: matching_def)
  next
    fix k assume "k \<in> event_key ` {e \<in> set evs. isPotentialTBTTask e}"
    then obtain e where e: "e \<in> set evs" "isPotentialTBTTask e" "event_key e = k" by auto
    then have "e \<in> set (matching k evs)" by (simp add: matching_def)
    then obtain e0 es where "matching k evs = e0 # es" by (cases "matching k evs") auto
    then obtain t where t: "taskOf (matching k evs) = Some t" by (simp add: taskOf_def)
    then have "t \<in> set (aggregate evs)" using 1 by auto
    then show "k \<in> task_key ` set (aggregate evs)" using key [OF t] by auto
  qed
qed

text \<open>
  Claim C8 fails on the code. The aggregator keys its map by the string
  \<^verbatim>\<open>name|url\<close>, which it calls a unique key; two events whose (name, URL) pairs
  differ can have the same string. The two events below qualify, have the pairs
  \<^verbatim>\<open>(Task|A, )\<close> and \<^verbatim>\<open>(Task, A|)\<close>, and end up in one task, under the name, URL and
  category of the first, with the times and counts of both.
\<close>

theorem aggregate_merges_distinct_pairs:
  "isPotentialTBTTask pipeEvent1 \<and> isPotentialTBTTask pipeEvent2
   \<and> (getEventKey pipeEvent1, getEventUrl pipeEvent1) = (''Task|A'', [])
   \<and> (getEventKey pipeEvent2, getEventUrl pipeEvent2) = (''Task'', ''A|'')
   \<and> aggregate [pipeEvent1, pipeEvent2] =
       [\<lparr>name = ''Task|A'', url = [], blockingTime = 30, totalDuration = 130,
         occurrences = 2, category = ''scripting''\<rparr>]"
proof -
  have q1: "isPotentialTBTTask pipeEvent1" by code_simp
  have q2: "isPotentialTBTTask pipeEvent2" by code_simp
  have k1: "(getEventKey pipeEvent1, getEventUrl pipeEvent1) = (''Task|A'', [])"
    by (simp add: getEventKey_def getEventUrl_def pipeEvent1_def)
  have k2: "(getEventKey pipeEvent2, getEventUrl pipeEvent2) = (''Task'', ''A|'')"
    by (simp add: getEventKey_def getEventUrl_def pipeEvent2_def)
  have b1: "calculateBlockingTime pipeEvent1 = 10" "ev_dur pipeEvent1 = Some 60000"
      "ev_cat pipeEvent1 = Some ''scripting''"
    by (simp_all add: calculateBlockingTime_def pipeEvent1_def)
  have b2: "calculateBlockingTime pipeEvent2 = 20" "ev_dur pipeEvent2 = Some 70000"
    by (simp_all add: calculateBlockingTime_def pipeEvent2_def)
  have "aggregate [pipeEvent1, pipeEvent2] =
       [\<lparr>name = ''Task|A'', url = [], blockingTime = 30, totalDuration = 130,
         occurrences = 2, category = ''scripting''\<rparr>]"
    using k1 k2 by (simp add: aggregate_def processEvent_def q1 q2 b1 b2)
  then show ?thesis using q1 q2 k1 k2 by simp
qed

section \<open>Rows in step with the header\<close>

lemma length_minusOnes_runs: "length (concat (replicate n minusOnes)) = 3 * n"
  by (induction n) (simp_all add: minusOnes_def)

lemma length_set_cell: "3 < length r \<Longrightarrow> length (set_cell r 3 v) = length r"
  by (simp add: set_cell_def)

lemma aligned_keys_differ:
  assumes "aligned r H rep tm upd" "1 \<le> i" "i < length rep" "1 \<le> j" "j < length rep"
    "row_key (rep ! i) = row_key (rep ! j)"
  shows "i = j"
proof -
  have "map_of tm (row_key (rep ! i)) = Some i" "map_of tm (row_key (rep ! i)) = Some j"
    using assms by (simp_all add: aligned_def)
  then show ?thesis by simp
qed

lemma alignedD:
  assumes "aligned r H rep tm upd"
  shows "1 \<le> length r" "length r \<le> length rep" "distinct (map fst tm)"
    and "\<And>k i. map_of tm k = Some i \<longleftrightarrow> 1 \<le> i \<and> i < length rep \<and> row_key (rep ! i) = k"
    and "\<And>i. 1 \<le> i \<Longrightarrow> i < length rep \<Longrightarrow> row_key (rep ! i) \<in> upd \<Longrightarrow>
           length (rep ! i) = H + 3"
    and "\<And>i. 1 \<le> i \<Longrightarrow> i < length rep \<Longrightarrow> row_key (rep ! i) \<notin> upd \<Longrightarrow>
           i < length r \<and> rep ! i = r ! i \<and> length (rep ! i) = H"
proof -
  have rows: "\<forall>i. 1 \<le> i \<and> i < length rep \<longrightarrow>
           (if row_key (rep ! i) \<in> upd then length (rep ! i) = H + 3
            else i < length r \<and> rep ! i = r ! i \<and> length (rep ! i) = H)"
    using assms by (simp add: aligned_def)
  show "1 \<le> length r" "length r \<le> length rep" "distinct (map fst tm)"
    using assms by (simp_all add: aligned_def)
  show "\<And>k i. map_of tm k = Some i \<longleftrightarrow> 1 \<le> i \<and> i < length rep \<and> row_key (rep ! i) = k"
    using assms unfolding aligned_def by blast
  show "length (rep ! i) = H + 3"
    if "1 \<le> i" "i < length rep" "row_key (rep ! i) \<in> upd" for i
  proof -
    have "if row_key (rep ! i) \<in> upd then length (rep ! i) = H + 3
            else i < length r \<and> rep ! i = r ! i \<and> length (rep ! i) = H"
      using rows that by blast
    then show ?thesis using that(3) by simp
  qed
  show "i < length r \<and> rep ! i = r ! i \<and> length (rep ! i) = H"
    if "1 \<le> i" "i < length rep" "row_key (rep ! i) \<notin> upd" for i
  proof -
    have "if row_key (rep ! i) \<in> upd then length (rep ! i) = H + 3
            else i < length r \<and> rep ! i = r ! i \<and> length (rep ! i) = H"
      using rows that by blast
    then show ?thesis using that(3) by auto
  qed
qed

lemma mergeTask_aligned:
  assumes al: "aligned r H rep tm upd" and H: "H = 4 + 3 * nat rc"
    and fresh: "task_key t \<notin> upd"
    and step: "mergeTask rc t (rep, tm, upd) = (rep', tm', upd')"
  shows "aligned r H rep' tm' upd'"
proof (cases "map_of tm (task_key t)")
  case None
  note d = alignedD [OF al]
  define new where "new = fixedCells t @ concat (replicate (nat rc) minusOnes) @ metricCells t"
  define n where "n = length rep"
  have eq: "rep' = rep @ [new]" "tm' = AList.update (task_key t) n tm"
      "upd' = insert (task_key t) upd"
    using None step by (simp_all add: mergeTask_None new_def n_def)
  have newkey: "row_key new = task_key t" by (simp add: new_def new_row_pair)
  have newlen: "length new = H + 3"
    by (simp add: new_def H length_minusOnes_runs fixedCells_def metricCells_def)
  have nokey: "row_key (rep ! i) \<noteq> task_key t" if "1 \<le> i" "i < n" for i
  proof
    assume "row_key (rep ! i) = task_key t"
    then have "map_of tm (task_key t) = Some i" using d(4) that by (simp add: n_def)
    then show False using None by simp
  qed
  have pos: "1 \<le> n" using d(1,2) by (simp add: n_def)
  have old: "rep' ! i = rep ! i" if "i < n" for i using that by (simp add: eq n_def nth_append)
  have last: "rep' ! n = new" by (simp add: eq n_def)
  have len: "length rep' = Suc n" by (simp add: eq n_def)
  have ex: "map_of tm' k = Some i \<longleftrightarrow> 1 \<le> i \<and> i < length rep' \<and> row_key (rep' ! i) = k" for k i
  proof (cases "i < n")
    case True
    have "map_of tm' k = Some i \<longleftrightarrow> k \<noteq> task_key t \<and> map_of tm k = Some i"
      using True by (auto simp: eq update_conv')
    also have "\<dots> \<longleftrightarrow> k \<noteq> task_key t \<and> 1 \<le> i \<and> row_key (rep ! i) = k"
      using True d(4) [of k i] by (simp add: n_def)
    also have "\<dots> \<longleftrightarrow> 1 \<le> i \<and> row_key (rep ! i) = k"
      using nokey [of i] True by auto
    finally show ?thesis using True old [of i] len by simp
  next
    case False
    have "map_of tm k \<noteq> Some i" using False d(4) [of k i] by (simp add: n_def)
    then have m: "map_of tm' k = Some i \<longleftrightarrow> k = task_key t \<and> i = n"
      by (auto simp: eq update_conv')
    show ?thesis
    proof (cases "i = n")
      case True
      then show ?thesis using m pos last newkey len by auto
    next
      case False
      then have "\<not> i < length rep'" using \<open>\<not> i < n\<close> len by simp
      then show ?thesis using m False by simp
    qed
  qed
  have rows: "if row_key (rep' ! i) \<in> upd' then length (rep' ! i) = H + 3
      else i < length r \<and> rep' ! i = r ! i \<and> length (rep' ! i) = H"
    if "1 \<le> i \<and> i < length rep'" for i
  proof (cases "i < n")
    case True
    have "row_key (rep ! i) \<in> upd' \<longleftrightarrow> row_key (rep ! i) \<in> upd"
      using nokey [of i] True that by (simp add: eq)
    then show ?thesis
      using True that old [of i] d(5) [of i] d(6) [of i] by (simp add: n_def)
  next
    case False
    then have "i = n" using that len by simp
    then show ?thesis using last newkey newlen by (simp add: eq)
  qed
  have "distinct (map fst tm')" using d(3) by (simp add: eq distinct_update)
  moreover have "length r \<le> length rep'" using d(2) len by (simp add: n_def)
  ultimately show ?thesis
    unfolding aligned_def using d(1) ex rows by blast
next
  case (Some i)
  note d = alignedD [OF al]
  have i: "1 \<le> i" "i < length rep" "row_key (rep ! i) = task_key t"
    using Some d(4) [of "task_key t" i] by simp_all
  then have "i < length r \<and> rep ! i = r ! i \<and> length (rep ! i) = H"
    using d(6) [of i] fresh by metis
  then have same: "i < length r" "rep ! i = r ! i" "length (rep ! i) = H"
    by blast+
  define r' where "r' = (if blockingTime t > 0 then set_cell (rep ! i) 3 ''Yes'' else rep ! i)
      @ metricCells t"
  have eq: "rep' = rep[i := r']" "tm' = tm" "upd' = insert (task_key t) upd"
    using Some step by (simp_all add: mergeTask_Some r'_def)
  have "3 < length (rep ! i)" using same(3) H by simp
  then have len': "length r' = H + 3"
    using same(3) by (simp add: r'_def length_set_cell metricCells_def)
  have "row_grows (rep ! i) r'"
    unfolding r'_def
    using row_grows_trans [OF row_grows_set_cell row_grows_append [OF metricCells_not_No]]
      row_grows_append [OF metricCells_not_No]
    by simp
  moreover have "2 \<le> length (rep ! i)" using same(3) H by simp
  ultimately have key': "row_key r' = task_key t" using row_grows_key(1) i(3) by metis
  have keys: "row_key (rep' ! j) = row_key (rep ! j)" if "j < length rep" for j
    using that key' i(3) by (cases "j = i") (simp_all add: eq)
  have ex: "map_of tm' k = Some j \<longleftrightarrow> 1 \<le> j \<and> j < length rep' \<and> row_key (rep' ! j) = k" for k j
    using d(4) [of k j] keys [of j] by (auto simp: eq)
  have rows: "if row_key (rep' ! j) \<in> upd' then length (rep' ! j) = H + 3
      else j < length r \<and> rep' ! j = r ! j \<and> length (rep' ! j) = H"
    if j: "1 \<le> j \<and> j < length rep'" for j
  proof (cases "j = i")
    case True
    then show ?thesis using key' len' i(2) by (simp add: eq)
  next
    case False
    have "row_key (rep ! j) \<noteq> task_key t"
      using aligned_keys_differ [OF al _ _ i(1) i(2), of j] j False i(3) by (auto simp: eq)
    then have "row_key (rep ! j) \<in> upd' \<longleftrightarrow> row_key (rep ! j) \<in> upd" by (simp add: eq)
    then show ?thesis
      using False j d(5) [of j] d(6) [of j] by (simp add: eq)
  qed
  have "length r \<le> length rep'" using d(2) by (simp add: eq)
  then show ?thesis
    unfolding aligned_def using d(1) d(3) ex rows eq(2) by blast
qed

lemma fold_mergeTask_aligned:
  assumes "aligned r H rep tm upd" "H = 4 + 3 * nat rc"
    and "distinct (map task_key tasks)" "task_key ` set tasks \<inter> upd = {}"
    and "fold (mergeTask rc) tasks (rep, tm, upd) = (rep', tm', upd')"
  shows "aligned r H rep' tm' upd'"
  using assms
proof (induction tasks arbitrary: rep tm upd)
  case Nil
  then show ?case by simp
next
  case (Cons t tasks)
  obtain rep1 tm1 upd1 where step: "mergeTask rc t (rep, tm, upd) = (rep1, tm1, upd1)"
    by (cases "mergeTask rc t (rep, tm, upd)") auto
  have fresh: "task_key t \<notin> upd" using Cons.prems(4) by auto
  have a1: "aligned r H rep1 tm1 upd1"
    by (rule mergeTask_aligned [OF Cons.prems(1) Cons.prems(2) fresh step])
  have "upd1 = insert (task_key t) upd"
    using step by (cases "map_of tm (task_key t)") (simp_all add: mergeTask_None mergeTask_Some)
  then have disj: "task_key ` set tasks \<inter> upd1 = {}"
    using Cons.prems(3,4) by auto
  have rest: "fold (mergeTask rc) tasks (rep1, tm1, upd1) = (rep', tm', upd')"
    using Cons.prems(5) step by simp
  show ?case
    using Cons.IH [OF a1 Cons.prems(2) _ disj rest] Cons.prems(3) by simp
qed

section \<open>The cells for the tasks that did not run\<close>

lemma fold_fillAbsent_nth:
  assumes "distinct (map snd tm)" "i < length rep"
  shows "fold (fillAbsent upd) tm rep ! i =
    (if \<exists>k. (k, i) \<in> set tm \<and> k \<notin> upd then rep ! i @ minusOnes else rep ! i)"
  using assms
proof (induction tm arbitrary: rep)
  case Nil
  then show ?case by simp
next
  case (Cons e tm)
  define rep1 where "rep1 = fillAbsent upd e rep"
  have len: "i < length rep1" using Cons.prems(2) by (simp add: rep1_def fillAbsent_length)
  have ih: "fold (fillAbsent upd) tm rep1 ! i =
    (if \<exists>k. (k, i) \<in> set tm \<and> k \<notin> upd then rep1 ! i @ minusOnes else rep1 ! i)"
    using Cons.IH [OF _ len] Cons.prems(1) by simp
  have f: "fold (fillAbsent upd) (e # tm) rep = fold (fillAbsent upd) tm rep1"
    by (simp add: rep1_def)
  show ?case
  proof (cases "snd e = i")
    case True
    then have "i \<notin> snd ` set tm" using Cons.prems(1) by auto
    then have none: "(\<exists>k. (k, i) \<in> set tm \<and> k \<notin> upd) = False" by force
    have r1: "rep1 ! i = (if fst e \<notin> upd then rep ! i @ minusOnes else rep ! i)"
      using True Cons.prems(2) by (simp add: rep1_def fillAbsent_def push_cells_def)
    have q: "(\<exists>k. (k, i) \<in> set (e # tm) \<and> k \<notin> upd) = (fst e \<notin> upd)"
      using none True by (cases e) auto
    show ?thesis by (simp only: f ih q none r1 if_False)
  next
    case False
    then have r1: "rep1 ! i = rep ! i" by (simp add: rep1_def fillAbsent_def push_cells_def)
    have q: "(\<exists>k. (k, i) \<in> set (e # tm) \<and> k \<notin> upd) = (\<exists>k. (k, i) \<in> set tm \<and> k \<notin> upd)"
      using False by (cases e) auto
    show ?thesis by (simp only: f ih r1 q)
  qed
qed

lemma aligned_entries:
  assumes "aligned r H rep tm upd"
  shows "(k, i) \<in> set tm \<longleftrightarrow> 1 \<le> i \<and> i < length rep \<and> row_key (rep ! i) = k"
  using alignedD(3,4) [OF assms] by (metis map_of_eq_Some_iff)

lemma aligned_distinct_snd:
  assumes "aligned r H rep tm upd"
  shows "distinct (map snd tm)"
proof -
  have "distinct tm" using alignedD(3) [OF assms] by (simp add: distinct_map)
  moreover have "inj_on snd (set tm)"
  proof (rule inj_onI)
    fix e e'
    assume e: "e \<in> set tm" and e': "e' \<in> set tm" and s: "snd e = snd e'"
    have "(fst e, snd e) \<in> set tm" using e by simp
    then have 1: "row_key (rep ! snd e) = fst e"
      using aligned_entries [OF assms, of "fst e" "snd e"] by blast
    have "(fst e', snd e') \<in> set tm" using e' by simp
    then have 2: "row_key (rep ! snd e') = fst e'"
      using aligned_entries [OF assms, of "fst e'" "snd e'"] by blast
    show "e = e'" using 1 2 s by (simp add: prod_eq_iff)
  qed
  ultimately show ?thesis by (simp add: distinct_map)
qed

text \<open>When the tasks have been merged and every row is in step, the final pass brings
  every row to the length of the new header.\<close>

lemma fillAbsent_aligned:
  assumes al: "aligned r H rep tm upd" and i: "1 \<le> i" "i < length rep"
  shows "fold (fillAbsent upd) tm rep ! i =
    (if row_key (rep ! i) \<in> upd then rep ! i else r ! i @ minusOnes)"
    and "length (fold (fillAbsent upd) tm rep ! i) = H + 3"
proof -
  have "(\<exists>k. (k, i) \<in> set tm \<and> k \<notin> upd) \<longleftrightarrow> row_key (rep ! i) \<notin> upd"
    using aligned_entries [OF al] i by auto
  then have n: "fold (fillAbsent upd) tm rep ! i =
      (if row_key (rep ! i) \<notin> upd then rep ! i @ minusOnes else rep ! i)"
    using fold_fillAbsent_nth [OF aligned_distinct_snd [OF al] i(2), of upd] by simp
  show "fold (fillAbsent upd) tm rep ! i =
    (if row_key (rep ! i) \<in> upd then rep ! i else r ! i @ minusOnes)"
    using n alignedD(6) [OF al i] by auto
  show "length (fold (fillAbsent upd) tm rep ! i) = H + 3"
    using n alignedD(5) [OF al i] alignedD(6) [OF al i] by (auto simp: minusOnes_def)
qed

text \<open>The start of a merge is in step when the rows of the report have the header's
  length and distinct keys.\<close>

lemma start_aligned:
  assumes "r \<noteq> []" "\<forall>row\<in>set (tl r). length row = length (hd r)"
    and "distinct (map row_key (tl r))"
  shows "aligned r (length (hd r)) (withRunHeader r) (buildTaskMap (withRunHeader r)) {}"
proof -
  have rows: "r ! i \<in> set (tl r)" if "1 \<le> i" "i < length r" for i
  proof -
    have "tl r ! (i - 1) = r ! i" "i - 1 < length (tl r)" using that by (simp_all add: nth_tl)
    then show ?thesis by (metis nth_mem)
  qed
  have diff: "row_key (r ! i) \<noteq> row_key (r ! j)"
    if "1 \<le> i" "i < j" "j < length r" for i j
  proof -
    have "map row_key (tl r) ! (i - 1) = row_key (r ! i)"
      "map row_key (tl r) ! (j - 1) = row_key (r ! j)"
      using that by (simp_all add: nth_tl)
    moreover have "i - 1 < length (map row_key (tl r))" "j - 1 < length (map row_key (tl r))"
      "i - 1 \<noteq> j - 1"
      using that by auto
    ultimately show ?thesis using assms(3) by (metis nth_eq_iff_index_eq)
  qed
  have ex: "map_of (buildTaskMap (withRunHeader r)) k = Some i
      \<longleftrightarrow> 1 \<le> i \<and> i < length (withRunHeader r) \<and> row_key (withRunHeader r ! i) = k" for k i
  proof -
    have later: "\<forall>j. i < j \<and> j < length r \<longrightarrow> row_key (withRunHeader r ! j) \<noteq> row_key (r ! i)"
      if "1 \<le> i"
    proof (intro allI impI)
      fix j assume j: "i < j \<and> j < length r"
      then have "1 \<le> j" using that by simp
      then have "withRunHeader r ! j = r ! j" by (rule withRunHeader_rows(2))
      then show "row_key (withRunHeader r ! j) \<noteq> row_key (r ! i)"
        using diff [of i j] that j by simp
    qed
    show ?thesis
    proof (cases "1 \<le> i")
      case True
      then show ?thesis
        using later [OF True] by (auto simp: buildTaskMap_Some withRunHeader_rows)
    next
      case False
      then show ?thesis by (simp add: buildTaskMap_Some)
    qed
  qed
  have "1 \<le> length r" using assms(1) by (cases r) auto
  then show ?thesis
    unfolding aligned_def
    using ex rows assms(2) buildTaskMap_distinct [of "withRunHeader r"]
    by (auto simp: withRunHeader_rows)
qed

section \<open>A later run\<close>

text \<open>
  Claim C2, as stated, fails: that the data rows have the header's cell count is not
  enough. (1) When a task comes twice in the list, its row gets the three cells of the
  run twice: the new row of \<open>layoutTask\<close> has 13 cells under a header of 10. (2) When
  the header does not have \<open>4 + 3n\<close> cells, a new row starts with fewer \<^verbatim>\<open>-1\<close> cells
  than the header has run columns: 7 cells under a header of 8. (3) When two rows have
  the same key, the task map leads to the second only, and the first gets no cells at
  all: it stays at 7 cells under a header of 10.
\<close>

theorem later_run_rows_out_of_step:
  "length (hd (updateReport firstReport [layoutTask, layoutTask])) = 10
   \<and> length (updateReport firstReport [layoutTask, layoutTask] ! 2) = 13
   \<and> length (hd (updateReport fiveColumnReport [layoutTask])) = 8
   \<and> length (updateReport fiveColumnReport [layoutTask] ! 2) = 7
   \<and> length (hd (updateReport twinReport [])) = 10
   \<and> updateReport twinReport [] ! 1 = twinReport ! 1
   \<and> length (twinReport ! 1) = 7"
proof -
  have k: "task_key layoutTask = ''Layout|http://localhost/''"
    by (simp add: task_key_def layoutTask_def)
  have tm1: "buildTaskMap (withRunHeader firstReport) = [(''EvaluateScript|'', 1)]"
    by (simp add: buildTaskMap_def withRunHeader_def firstReport_def row_key_def get_cell_def
        cell_text_def)
  have tm2: "buildTaskMap (withRunHeader fiveColumnReport) = [(''EvaluateScript|'', 1)]"
    by (simp add: buildTaskMap_def withRunHeader_def fiveColumnReport_def row_key_def
        get_cell_def cell_text_def)
  have tm3: "buildTaskMap (withRunHeader twinReport) = [(''EvaluateScript|'', 2)]"
    by (simp add: buildTaskMap_def withRunHeader_def twinReport_def row_key_def get_cell_def
        cell_text_def)
  have a: "length (hd (updateReport firstReport [layoutTask, layoutTask])) = 10
      \<and> length (updateReport firstReport [layoutTask, layoutTask] ! 2) = 13"
    by (simp add: updateReport_def mergeTasks_def tm1 mergeTask.simps k push_cells_def
        fillAbsent_def runCount_def Let_def)
      (simp add: firstReport_def withRunHeader_def firstHeader_def runLabels_def runCount_def
        fixedCells_def metricCells_def minusOnes_def layoutTask_def)
  have b: "length (hd (updateReport fiveColumnReport [layoutTask])) = 8
      \<and> length (updateReport fiveColumnReport [layoutTask] ! 2) = 7"
    by (simp add: updateReport_def mergeTasks_def tm2 mergeTask.simps k push_cells_def
        fillAbsent_def runCount_def Let_def)
      (simp add: fiveColumnReport_def withRunHeader_def runLabels_def runCount_def
        fixedCells_def metricCells_def minusOnes_def layoutTask_def)
  have c: "length (hd (updateReport twinReport [])) = 10
      \<and> updateReport twinReport [] ! 1 = twinReport ! 1 \<and> length (twinReport ! 1) = 7"
    by (simp add: updateReport_def mergeTasks_def tm3 fillAbsent_def push_cells_def)
      (simp add: twinReport_def withRunHeader_def firstHeader_def runLabels_def)
  show ?thesis using a b c by simp
qed

text \<open>
  Claim C2, amended. Let the existing report have a header of \<open>4 + 3n\<close> cells, data
  rows of the header's cell count and with pairwise distinct keys, and let the tasks
  have pairwise distinct keys. Then \<open>updateReport\<close> makes the header 3 cells longer,
  leaves every row with the cell count of the new header, and has appended
  \<^verbatim>\<open>-1\<close>, \<^verbatim>\<open>-1\<close>, \<^verbatim>\<open>-1\<close> to every data row of the existing report whose key is
  not the key of a task.
\<close>

theorem later_run_rows_in_step:
  assumes "existingReport \<noteq> []"
    and "length (hd existingReport) = 4 + 3 * n"
    and "\<forall>row\<in>set (tl existingReport). length row = length (hd existingReport)"
    and "distinct (map row_key (tl existingReport))"
    and "distinct (map task_key tasks)"
  shows "length (hd (updateReport existingReport tasks)) = length (hd existingReport) + 3
    \<and> (\<forall>row\<in>set (updateReport existingReport tasks).
          length row = length (hd (updateReport existingReport tasks)))
    \<and> (\<forall>i. 1 \<le> i \<and> i < length existingReport
            \<and> row_key (existingReport ! i) \<notin> task_key ` set tasks
          \<longrightarrow> updateReport existingReport tasks ! i =
                existingReport ! i @ [Some ''-1'', Some ''-1'', Some ''-1''])"
proof -
  define H where "H = length (hd existingReport)"
  obtain rep tm upd where m: "mergeTasks existingReport tasks = (rep, tm, upd)"
    by (cases "mergeTasks existingReport tasks") auto
  define final where "final = fold (fillAbsent upd) tm rep"
  have fin: "updateReport existingReport tasks = final"
    by (simp add: updateReport_merge [OF assms(1)] m final_def)
  have rc: "H = 4 + 3 * nat (runCount existingReport)"
    using assms(2) by (simp add: runCount_def H_def)
  have "aligned existingReport H (withRunHeader existingReport)
      (buildTaskMap (withRunHeader existingReport)) {}"
    unfolding H_def by (rule start_aligned [OF assms(1,3,4)])
  then have al: "aligned existingReport H rep tm upd"
    using fold_mergeTask_aligned [OF _ rc assms(5), of existingReport _ _ "{}" rep tm upd] m
    by (simp add: mergeTasks_def)
  note s = mergeTasks_sound [OF assms(1) m]
  have len: "length final = length rep" by (simp add: final_def fold_fillAbsent_length)
  have pos: "1 \<le> length existingReport" "length existingReport \<le> length rep"
    using alignedD(1,2) [OF al] by simp_all
  have "\<forall>e\<in>set tm. snd e \<noteq> 0"
    using taskMap_in_range [OF assms(1) m] by fastforce
  then have "final ! 0 = rep ! 0" unfolding final_def by (rule fold_fillAbsent_other)
  then have h0: "final ! 0 = hd existingReport @ runLabels (runCount existingReport + 1)"
    using s(3) by simp
  have "final \<noteq> []" using len pos by auto
  then have hd: "hd final = final ! 0" by (simp add: hd_conv_nth)
  have g1: "length (hd final) = H + 3" using hd h0 by (simp add: H_def runLabels_def)
  have rowlen: "length (final ! i) = H + 3" if "i < length final" for i
  proof (cases "i = 0")
    case True
    then show ?thesis using g1 hd by simp
  next
    case False
    then show ?thesis
      using fillAbsent_aligned(2) [OF al, of i] that len by (simp add: final_def)
  qed
  have g2: "\<forall>row\<in>set final. length row = length (hd final)"
    using rowlen g1 by (auto simp: in_set_conv_nth)
  have g3: "final ! i = existingReport ! i @ [Some ''-1'', Some ''-1'', Some ''-1'']"
    if i: "1 \<le> i \<and> i < length existingReport
            \<and> row_key (existingReport ! i) \<notin> task_key ` set tasks" for i
  proof -
    have irep: "i < length rep" using i pos by simp
    have "existingReport ! i \<in> set (tl existingReport)"
    proof -
      have "tl existingReport ! (i - 1) = existingReport ! i" "i - 1 < length (tl existingReport)"
        using i by (auto simp: nth_tl)
      then show ?thesis by (metis nth_mem)
    qed
    then have two: "2 \<le> length (existingReport ! i)" using assms(2,3) by simp
    have "row_grows (existingReport ! i) (rep ! i)"
      using mergeTasks_grows [OF assms(1), of tasks] m i by (simp add: rep_grows_def)
    then have "row_key (rep ! i) = row_key (existingReport ! i)"
      using two by (rule row_grows_key(1))
    then have "row_key (rep ! i) \<notin> upd" using i s(4) by simp
    then show ?thesis
      using fillAbsent_aligned(1) [OF al _ irep] i by (simp add: final_def minusOnes_def)
  qed
  show ?thesis unfolding fin using g1 g2 g3 by (simp add: H_def)
qed

theorem later_run_rows_in_step_witness:
  "firstReport \<noteq> [] \<and> length (hd firstReport) = 4 + 3 * 1
   \<and> map length (tl firstReport) = [length (hd firstReport)]
   \<and> distinct (map row_key (tl firstReport)) \<and> distinct (map task_key [layoutTask])
   \<and> row_key (firstReport ! 1) \<notin> task_key ` set [layoutTask]
   \<and> length (hd (updateReport firstReport [layoutTask])) = 10
   \<and> updateReport firstReport [layoutTask] ! 1 =
       [Some ''EvaluateScript'', Some [], Some ''devtools.timeline,v8'', Some ''Yes'',
        Some ''100.00'', Some ''150.00'', Some ''1'', Some ''-1'', Some ''-1'', Some ''-1'']"
proof -
  have a: "firstReport \<noteq> []" by (simp add: firstReport_def)
  have b: "length (hd firstReport) = 4 + 3 * 1" by (simp add: firstReport_def firstHeader_def)
  have c: "\<forall>row\<in>set (tl firstReport). length row = length (hd firstReport)"
    by (simp add: firstReport_def firstHeader_def)
  have d: "distinct (map row_key (tl firstReport))" by (simp add: firstReport_def)
  have e: "distinct (map task_key [layoutTask])" by simp
  have k: "row_key (firstReport ! 1) \<notin> task_key ` set [layoutTask]"
    by (simp add: row_key_def get_cell_def cell_text_def firstReport_def task_key_def
        layoutTask_def)
  have l: "1 < length firstReport" by (simp add: firstReport_def)
  have r: "firstReport ! 1 = [Some ''EvaluateScript'', Some [], Some ''devtools.timeline,v8'',
      Some ''Yes'', Some ''100.00'', Some ''150.00'', Some ''1'']"
    by (simp add: firstReport_def)
  have "updateReport firstReport [layoutTask] ! 1 =
      firstReport ! 1 @ [Some ''-1'', Some ''-1'', Some ''-1'']"
    using later_run_rows_in_step [OF a b c d e] k l by simp
  moreover have "length (hd (updateReport firstReport [layoutTask])) = 10"
    using later_run_rows_in_step [OF a b c d e] b by simp
  moreover have "map length (tl firstReport) = [length (hd firstReport)]"
    by (simp add: firstReport_def firstHeader_def)
  ultimately show ?thesis using a b d e k r by simp
qed

section \<open>Elements of the trace\<close>

lemma view_raw: "view (raw e) = e"
  by (cases "ev_name e"; cases "ev_cat e"; cases "ev_url e") (simp_all add: view_def raw_def)

lemma mainThreadCheck_raw: "mainThreadCheck (raw e) = Inr (isMainThread e)"
  by (cases "ev_name e"; cases "ev_cat e")
    (simp_all add: mainThreadCheck_def isMainThread_def raw_def Let_def)

lemma categoryCheck_raw: "categoryCheck (raw e) = Inr (categoryMatches e)"
  by (cases "ev_cat e") (simp_all add: categoryCheck_def categoryMatches_def raw_def)

lemma taskTypeCheck_raw: "taskTypeCheck (raw e) = Inr (taskTypeMatches e)"
  by (cases "ev_name e") (simp_all add: taskTypeCheck_def taskTypeMatches_def raw_def)

text \<open>On an event with fields of the expected types the classifier does not fail and
  gives what \<open>isPotentialTBTTask\<close> gives.\<close>

lemma classify_raw: "classify (raw e) = Inr (isPotentialTBTTask e)"
proof -
  have "raw_ph (raw e) = ev_ph e" "raw_dur (raw e) = ev_dur e" by (simp_all add: raw_def)
  then show ?thesis
    by (simp add: classify_def isPotentialTBTTask_def mainThreadCheck_raw categoryCheck_raw
        taskTypeCheck_raw)
qed

lemma mainThreadCheck_True: "mainThreadCheck r = Inr True \<Longrightarrow> isMainThread (view r)"
  by (cases "raw_name r"; cases "raw_cat r")
    (auto simp: mainThreadCheck_def isMainThread_def view_def Let_def split: if_splits)

lemma categoryCheck_True: "categoryCheck r = Inr True \<Longrightarrow> categoryMatches (view r)"
  by (cases "raw_cat r")
    (auto simp: categoryCheck_def categoryMatches_def view_def split: if_splits)

lemma taskTypeCheck_True: "taskTypeCheck r = Inr True \<Longrightarrow> taskTypeMatches (view r)"
  by (cases "raw_name r")
    (auto simp: taskTypeCheck_def taskTypeMatches_def view_def split: if_splits)

text \<open>An element that the classifier accepts passes the test of \<open>processEvent\<close>.\<close>

lemma classify_accepts:
  assumes "classify r = Inr True"
  shows "isPotentialTBTTask (view r)"
proof -
  have ph: "raw_ph r = Some ''X''" and dur: "truthy_num (raw_dur r)"
    using assms by (auto simp: classify_def split: if_splits)
  have m: "mainThreadCheck r = Inr True"
    using assms ph dur by (auto simp: classify_def split: sum.splits if_splits)
  have "categoryCheck r = Inr True \<or> taskTypeCheck r = Inr True"
    using assms ph dur m by (auto simp: classify_def split: sum.splits if_splits)
  then have "categoryMatches (view r) \<or> taskTypeMatches (view r)"
    using categoryCheck_True taskTypeCheck_True by blast
  moreover have "ev_ph (view r) = Some ''X''" "truthy_num (ev_dur (view r))"
    using ph dur by (simp_all add: view_def)
  ultimately show ?thesis
    using mainThreadCheck_True [OF m] by (simp add: isPotentialTBTTask_def)
qed

lemma classify_error: "classify r = Inl err \<Longrightarrow> err = TypeError"
  by (cases "raw_name r"; cases "raw_cat r")
    (auto simp: classify_def mainThreadCheck_def categoryCheck_def taskTypeCheck_def Let_def
      split: if_splits sum.splits)

lemma processElements_error: "processElements els al = Inl err \<Longrightarrow> err = TypeError"
proof (induction els al rule: processElements.induct)
  case (1 tasks)
  then show ?case by simp
next
  case (2 els tasks)
  then show ?case by simp
next
  case (3 r els tasks)
  then show ?case
    by (cases "classify r") (auto dest: classify_error split: if_splits)
qed

lemma processElements_null:
  "NullElement \<in> set els \<Longrightarrow> processElements els al = Inl TypeError"
proof (induction els al rule: processElements.induct)
  case (1 tasks)
  then show ?case by simp
next
  case (2 els tasks)
  then show ?case by simp
next
  case (3 r els tasks)
  then show ?case
    by (cases "classify r") (auto dest: classify_error split: if_splits)
qed

text \<open>When the loop runs to its end, the map is that of the events it has taken up.\<close>

lemma processElements_accepted:
  "processElements els al = Inr al' \<Longrightarrow> al' = fold processEvent (accepted els) al"
proof (induction els al rule: processElements.induct)
  case (1 tasks)
  then show ?case by simp
next
  case (2 els tasks)
  then show ?case by simp
next
  case (3 r els tasks)
  show ?case
  proof (cases "classify r")
    case (Inl err)
    then show ?thesis using 3 by simp
  next
    case (Inr q)
    then show ?thesis using 3 by (cases q) simp_all
  qed
qed

lemma processElements_typed:
  "processElements (map (\<lambda>e. ObjectElement (raw e)) evs) al = Inr (fold processEvent evs al)"
proof (induction evs arbitrary: al)
  case Nil
  then show ?case by simp
next
  case (Cons e evs)
  show ?case using Cons by (simp add: classify_raw view_raw processEvent_skip)
qed

text \<open>The task list of a run is the list that the aggregator makes of the events taken
  up; on a trace of well-typed events it is the list of all of them.\<close>

lemma processTraceEvents_aggregate:
  assumes "processTraceEvents td = Inr tasks"
  shows "tasks = aggregate (accepted (eventsOf td))"
proof -
  have "tasks = map snd (fold processEvent (accepted els) [])"
    if "(case processElements els [] of Inl err \<Rightarrow> Inl err | Inr ts \<Rightarrow> Inr (map snd ts))
        = (Inr tasks :: error + task list)" for els
    using that processElements_accepted [of els "[]"]
    by (cases "processElements els []") auto
  then show ?thesis
    using assms
    by (auto simp: processTraceEvents_def eventsOf_def aggregate_def
        split: traceData.splits option.splits)
qed

lemma processTraceEvents_typed:
  "processTraceEvents (TraceArray (map (\<lambda>e. ObjectElement (raw e)) evs)) = Inr (aggregate evs)"
  by (simp add: processTraceEvents_def processElements_typed aggregate_def)


section \<open>Sequential runs of the program\<close>

text \<open>
  Claim C1. The task lists that \<open>updateReport\<close> is given are those of the aggregator,
  the values of a map keyed by \<^verbatim>\<open>name|url\<close>. For every sequence of traces, the report
  that the runs build from the empty report, one application of \<open>updateReport\<close> to
  the aggregated tasks of each trace, has no two data rows with the same
  (Task Name, URL) pair.
\<close>

theorem runs_unique_rows:
  "distinct (map row_pair (tl (runs (map aggregate evss))))"
proof (rule runs_unique_rows_from_first)
  show "map aggregate evss \<noteq> [] \<longrightarrow> distinct (map task_pair (hd (map aggregate evss)))"
    by (cases evss) (simp_all add: aggregate_distinct)
qed

theorem runs_unique_rows_witness:
  "aggregate [scriptEvent, scriptEvent] =
     [\<lparr>name = ''EvaluateScript'', url = [], blockingTime = 200, totalDuration = 300,
       occurrences = 2, category = ''devtools.timeline,v8''\<rparr>]
   \<and> distinct (map row_pair (tl (runs (map aggregate [[scriptEvent, scriptEvent], [scriptEvent]]))))"
proof -
  have q: "isPotentialTBTTask scriptEvent" by code_simp
  have f: "calculateBlockingTime scriptEvent = 100" "ev_dur scriptEvent = Some 150000"
      "ev_cat scriptEvent = Some ''devtools.timeline,v8''"
      "getEventKey scriptEvent = ''EvaluateScript''" "getEventUrl scriptEvent = []"
    by (simp_all add: calculateBlockingTime_def getEventKey_def getEventUrl_def scriptEvent_def)
  have "aggregate [scriptEvent, scriptEvent] =
     [\<lparr>name = ''EvaluateScript'', url = [], blockingTime = 200, totalDuration = 300,
       occurrences = 2, category = ''devtools.timeline,v8''\<rparr>]"
    by (simp add: aggregate_def processEvent_def q f)
  then show ?thesis
    using runs_unique_rows [of "[[scriptEvent, scriptEvent], [scriptEvent]]"] by simp
qed

section \<open>Errors of a run\<close>

lemma invalidTrace_iff: "invalidTrace td \<longleftrightarrow> \<not> hasEventArray td"
  by (simp add: invalidTrace_def hasEventArray_def split: traceData.splits option.splits)

lemma analyzeTraceMetadata_error: "analyzeTraceMetadata els = Some err \<Longrightarrow> err = TypeError"
  by (induction els rule: analyzeTraceMetadata.induct) (auto split: jsfield.splits if_splits)

lemma processTraceEvents_error: "processTraceEvents td = Inl err \<Longrightarrow> err = TypeError"
  by (auto simp: processTraceEvents_def split: traceData.splits option.splits sum.splits
      dest: processElements_error)

lemma processTraceEvents_null:
  assumes "hasEventArray td" "NullElement \<in> set (eventsOf td)"
  shows "processTraceEvents td = Inl TypeError"
  using assms
  by (auto simp: processTraceEvents_def hasEventArray_def eventsOf_def processElements_null
      split: traceData.splits option.splits)

text \<open>
  Claim C9. When the trace file parses to a value that is neither an array nor an
  object with an event array, the run ends with the invalid-format error. When the
  shape is right and the tasks cannot be aggregated, because the classifier raises a
  TypeError on an element of the array, the run ends with that error. And whenever a
  run ends with an error, be it of reading, of parsing, of the shape, of the debug
  listing or of the classifier, the file system is as it was: the report is written
  only at the end of a run that read, classified and merged without error.
\<close>

theorem invalid_trace_leaves_report:
  "(files tracePath = Some content \<and> parse content = Inr td \<and> \<not> hasEventArray td
      \<longrightarrow> analyzeTrace parse debug files tracePath reportPath
            = (Some InvalidTraceFormat, files))
   \<and> (files tracePath = Some content \<and> parse content = Inr td \<and> hasEventArray td
       \<and> processTraceEvents td = Inl err
      \<longrightarrow> analyzeTrace parse debug files tracePath reportPath = (Some TypeError, files))
   \<and> (\<forall>err' files'. analyzeTrace parse debug files tracePath reportPath = (Some err', files')
      \<longrightarrow> files' = files)"
proof -
  have "analyzeTrace parse debug files tracePath reportPath = (Some InvalidTraceFormat, files)"
    if "files tracePath = Some content" "parse content = Inr td" "\<not> hasEventArray td"
    using that by (simp add: analyzeTrace_def invalidTrace_iff)
  moreover have "analyzeTrace parse debug files tracePath reportPath = (Some TypeError, files)"
    if "files tracePath = Some content" "parse content = Inr td" "hasEventArray td"
      "processTraceEvents td = Inl err"
  proof -
    have e: "err = TypeError" using that(4) by (rule processTraceEvents_error)
    show ?thesis
    proof (cases "if debug then analyzeTraceMetadata (eventsOf td) else None")
      case None
      then show ?thesis
        using that e by (simp add: analyzeTrace_def invalidTrace_iff Let_def)
    next
      case (Some err0)
      then have "err0 = TypeError"
        by (auto dest: analyzeTraceMetadata_error split: if_splits)
      then show ?thesis
        using that Some by (simp add: analyzeTrace_def invalidTrace_iff)
    qed
  qed
  moreover have "files' = files"
    if "analyzeTrace parse debug files tracePath reportPath = (Some err', files')"
    for err' files'
    using that
    by (auto simp: analyzeTrace_def Let_def split: option.splits sum.splits if_splits)
  ultimately show ?thesis by blast
qed

theorem invalid_trace_leaves_report_witness:
  "someFiles ''trace.json'' = Some ''{}''
   \<and> someParse ''{}'' = Inr (TraceObject None)
   \<and> \<not> hasEventArray (TraceObject None)
   \<and> analyzeTrace someParse False someFiles ''trace.json'' ''report.tsv''
       = (Some InvalidTraceFormat, someFiles)
   \<and> nullFiles ''trace.json'' = Some ''[e, null]''
   \<and> nullParse ''[e, null]'' = Inr (TraceArray [ObjectElement (raw scriptEvent), NullElement])
   \<and> hasEventArray (TraceArray [ObjectElement (raw scriptEvent), NullElement])
   \<and> classify (raw scriptEvent) = Inr True
   \<and> processTraceEvents (TraceArray [ObjectElement (raw scriptEvent), NullElement])
       = Inl TypeError
   \<and> analyzeTrace nullParse False nullFiles ''trace.json'' ''report.tsv''
       = (Some TypeError, nullFiles)
   \<and> classify numberNamed = Inl TypeError"
proof -
  have a: "someFiles ''trace.json'' = Some ''{}''" by (simp add: someFiles_def)
  have b: "someParse ''{}'' = Inr (TraceObject None)" by (simp add: someParse_def)
  have c: "\<not> hasEventArray (TraceObject None)" by (simp add: hasEventArray_def)
  have 1: "analyzeTrace someParse False someFiles ''trace.json'' ''report.tsv''
       = (Some InvalidTraceFormat, someFiles)"
    using a b c
      invalid_trace_leaves_report [of someFiles "''trace.json''" "''{}''"
        someParse "TraceObject None" False "''report.tsv''"]
    by blast
  have a': "nullFiles ''trace.json'' = Some ''[e, null]''" by (simp add: nullFiles_def)
  have b': "nullParse ''[e, null]'' = Inr (TraceArray [ObjectElement (raw scriptEvent), NullElement])"
    by (simp add: nullParse_def)
  have c': "hasEventArray (TraceArray [ObjectElement (raw scriptEvent), NullElement])"
    by (simp add: hasEventArray_def)
  have "isPotentialTBTTask scriptEvent" by code_simp
  then have q: "classify (raw scriptEvent) = Inr True" by (simp add: classify_raw)
  have p: "processTraceEvents (TraceArray [ObjectElement (raw scriptEvent), NullElement])
       = Inl TypeError"
    by (simp add: processTraceEvents_def q)
  have 2: "analyzeTrace nullParse False nullFiles ''trace.json'' ''report.tsv''
       = (Some TypeError, nullFiles)"
    using a' b' c' p
      invalid_trace_leaves_report [of nullFiles "''trace.json''" "''[e, null]''"
        nullParse "TraceArray [ObjectElement (raw scriptEvent), NullElement]" False
        "''report.tsv''" TypeError]
    by blast
  have n: "classify numberNamed = Inl TypeError"
    by (simp add: classify_def mainThreadCheck_def numberNamed_def)
  show ?thesis using a b c 1 a' b' c' q p 2 n by simp
qed

end
